theory Spec2Isabelle
  imports Complex_Main
begin

section \<open>Python strings and the library functions used by the watcher\<close>

text \<open>
  A Python \<open>str\<close> is modelled as a \<open>string\<close> whose characters are the code points
  0 to 255; on this range the character classes of the \<open>re\<close> module and \<open>str.lower\<close>
  are written out exactly (the range is closed under \<open>lower\<close>).  A \<open>bytes\<close> value is
  a \<open>string\<close> of bytes.
\<close>

definition code :: "char \<Rightarrow> nat" where
  "code c = of_char c"

definition is_ascii :: "char \<Rightarrow> bool" where
  "is_ascii c \<longleftrightarrow> code c < 128"

text \<open>The set \<open>[A-Za-z0-9_.-]\<close> of the filename rules.\<close>

definition allowed_char :: "char \<Rightarrow> bool" where
  "allowed_char c \<longleftrightarrow>
     (65 \<le> code c \<and> code c \<le> 90) \<or> (97 \<le> code c \<and> code c \<le> 122) \<or>
     (48 \<le> code c \<and> code c \<le> 57) \<or> c = CHR ''_'' \<or> c = CHR ''.'' \<or> c = CHR ''-''"

text \<open>\<open>\w\<close> of a \<open>str\<close> pattern: alphanumeric code points and the underscore.\<close>

definition is_word :: "char \<Rightarrow> bool" where
  "is_word c \<longleftrightarrow>
     (let n = code c in
        (48 \<le> n \<and> n \<le> 57) \<or> (65 \<le> n \<and> n \<le> 90) \<or> n = 95 \<or> (97 \<le> n \<and> n \<le> 122) \<or>
        n = 170 \<or> n = 178 \<or> n = 179 \<or> n = 181 \<or> n = 185 \<or> n = 186 \<or>
        (188 \<le> n \<and> n \<le> 190) \<or> (192 \<le> n \<and> n \<le> 214) \<or>
        (216 \<le> n \<and> n \<le> 246) \<or> (248 \<le> n \<and> n \<le> 255))"

text \<open>\<open>\s\<close> of a \<open>str\<close> pattern.\<close>

definition is_space :: "char \<Rightarrow> bool" where
  "is_space c \<longleftrightarrow>
     (let n = code c in (9 \<le> n \<and> n \<le> 13) \<or> (28 \<le> n \<and> n \<le> 32) \<or> n = 133 \<or> n = 160)"

text \<open>\<open>str.lower\<close>, character by character on this range.\<close>

definition lower_char :: "char \<Rightarrow> char" where
  "lower_char c =
     (let n = code c in
        if (65 \<le> n \<and> n \<le> 90) \<or> (192 \<le> n \<and> n \<le> 222 \<and> n \<noteq> 215)
        then char_of (n + 32) else c)"

definition lower :: "string \<Rightarrow> string" where
  "lower s = map lower_char s"

text \<open>\<open>str.rfind\<close> for a single character: the last index, or -1.\<close>

fun rfind :: "char \<Rightarrow> string \<Rightarrow> int" where
  "rfind c [] = -1"
| "rfind c (x # xs) =
     (let r = rfind c xs in if 0 \<le> r then r + 1 else if x = c then 0 else -1)"

text \<open>
  \<open>posixpath.splitext\<close>: the extension starts at the last dot, when that dot comes after
  the last separator and some character between them is not a dot.  The function below is
  the \<open>while\<close> loop that skips leading dots; it returns \<open>True\<close> where the loop returns
  the split.
\<close>

function skip_leading_dots :: "string \<Rightarrow> int \<Rightarrow> int \<Rightarrow> bool" where
  "skip_leading_dots p filenameIndex dotIndex =
     (if filenameIndex < dotIndex
      then (if p ! nat filenameIndex \<noteq> CHR ''.'' then True
            else skip_leading_dots p (filenameIndex + 1) dotIndex)
      else False)"
  by pat_completeness auto
termination
  by (relation "measure (\<lambda>(p, i, d). nat (d - i))") auto

declare skip_leading_dots.simps [simp del]

definition splitext :: "string \<Rightarrow> string \<times> string" where
  "splitext p =
     (let sepIndex = rfind CHR ''/'' p;
          dotIndex = rfind CHR ''.'' p
      in if dotIndex > sepIndex \<and> skip_leading_dots p (sepIndex + 1) dotIndex
         then (take (nat dotIndex) p, drop (nat dotIndex) p)
         else (p, []))"

section \<open>The filename sanitizer\<close>

text \<open>
  The first alternative of the sender pattern, \<open><(.+?)>\<close>, tried at the head of the
  string: after the first character of the group, the lazy repetition stops at the first
  \<open>>\<close> and fails at a newline, which the dot does not match.
\<close>

fun lazy_dots :: "string \<Rightarrow> string \<Rightarrow> string option" where
  "lazy_dots acc [] = None"
| "lazy_dots acc (d # ds) =
     (if d = CHR ''>'' then Some acc
      else if d = CHR 0x0A then None
      else lazy_dots (acc @ [d]) ds)"

fun alt_bracket :: "string \<Rightarrow> string option" where
  "alt_bracket (a # c # rest) =
     (if a = CHR ''<'' \<and> c \<noteq> CHR 0x0A then lazy_dots [c] rest else None)"
| "alt_bracket _ = None"

text \<open>
  The second alternative, \<open>([^\s<>]+@[^\s<>]+)\<close>, tried at the head of the string: both
  repetitions are greedy, so the group is the whole run of class characters, and the
  match exists when an \<open>@\<close> of the run has a class character on each side.
\<close>

definition addr_class :: "char \<Rightarrow> bool" where
  "addr_class c \<longleftrightarrow> \<not> is_space c \<and> c \<noteq> CHR ''<'' \<and> c \<noteq> CHR ''>''"

definition alt_addr :: "string \<Rightarrow> string option" where
  "alt_addr s =
     (let run = takeWhile addr_class s
      in if CHR ''@'' \<in> set (butlast (tl run)) then Some run else None)"

text \<open>
  \<open>re.search\<close>: the leftmost start position wins, and at one position the first
  alternative is tried before the second.  The result is
  \<open>group(1) or group(2)\<close> of the match.
\<close>

fun search_addr :: "string \<Rightarrow> string option" where
  "search_addr [] = None"
| "search_addr (c # cs) =
     (case alt_bracket (c # cs) of
        Some g \<Rightarrow> Some g
      | None \<Rightarrow> (case alt_addr (c # cs) of
                   Some g \<Rightarrow> Some g
                 | None \<Rightarrow> search_addr cs))"

definition email_addr_of :: "string \<Rightarrow> string" where
  "email_addr_of sender = (case search_addr sender of Some g \<Rightarrow> g | None \<Rightarrow> sender)"

definition clean_sender_of :: "string \<Rightarrow> string" where
  "clean_sender_of email_addr =
     filter (\<lambda>c. is_word c \<or> c = CHR ''-'' \<or> c = CHR ''_'')
       (map (\<lambda>c. if c = CHR ''<'' \<or> c = CHR ''>'' \<or> c = CHR ''@'' \<or> c = CHR ''.''
                 then CHR ''_'' else c)
            (lower email_addr))"

definition clean_name_of :: "string \<Rightarrow> string" where
  "clean_name_of name =
     map (\<lambda>c. if is_word c \<or> c = CHR ''-'' \<or> c = CHR ''_'' \<or> c = CHR ''.''
               then c else CHR ''_'') name"

definition sanitize_filename :: "string \<Rightarrow> string \<Rightarrow> string \<Rightarrow> string" where
  "sanitize_filename filename sender timestamp =
     (let email_addr = email_addr_of sender;
          clean_sender = clean_sender_of email_addr;
          (name, ext) = splitext filename;
          clean_name = clean_name_of name;
          clean_ext = lower ext
      in clean_sender @ ''_'' @ timestamp @ ''_'' @ clean_name @ clean_ext)"


section \<open>Saving attachments\<close>

text \<open>\<open>str.startswith\<close>, \<open>str.endswith\<close> and the substring test \<open>needle in hay\<close>.\<close>

fun startswith :: "string \<Rightarrow> string \<Rightarrow> bool" where
  "startswith s [] = True"
| "startswith [] (p # ps) = False"
| "startswith (c # cs) (p # ps) = (c = p \<and> startswith cs ps)"

definition endswith :: "string \<Rightarrow> string \<Rightarrow> bool" where
  "endswith s suffix = startswith (rev s) (rev suffix)"

fun contains :: "string \<Rightarrow> string \<Rightarrow> bool" where
  "contains needle [] = (needle = [])"
| "contains needle (c # cs) = (startswith (c # cs) needle \<or> contains needle cs)"

text \<open>
  \<open>pathlib\<close>'s \<open>stem\<close> of a final path component: the name without its last suffix,
  where a dot at the first or at the last position starts no suffix.
\<close>

definition path_stem :: "string \<Rightarrow> string" where
  "path_stem name =
     (let i = rfind CHR ''.'' name
      in if 0 < i \<and> i < int (length name) - 1 then take (nat i) name else name)"

text \<open>The settings of a watcher that the pipeline reads.\<close>

record watcher =
  attachments_dir :: string
  docker_mode :: bool
  ENABLE_SUMMARIZATION :: bool

text \<open>The dictionary \<open>attachment_info\<close>, one line of \<open>attachments.json\<close>.\<close>

record attachment_info =
  info_timestamp :: string
  info_sender :: string
  info_subject :: string
  original_filename :: string
  saved_filename :: string
  file_size :: nat
  file_path :: string

type_synonym email_id = string

text \<open>
  A MIME part as the loop over \<open>message.walk()\<close> reads it:
  \<open>get_content_disposition()\<close>, \<open>get_filename()\<close> and \<open>get_payload(decode=True)\<close>,
  each \<open>None\<close> or a value.  A call can also raise instead of returning
  (\<open>get_filename()\<close> raises \<open>TypeError\<close> on a malformed filename parameter of a message
  that parses): \<open>raising\<close> lists the calls that raise for the part, and the field of such
  a call is never read.
\<close>

datatype getter = Disposition | Filename | Payload

record part =
  get_content_disposition :: "string option"
  get_filename :: "string option"
  get_payload :: "string option"
  raising :: "getter list"

record message =
  msg_from :: string
  msg_subject :: string
  walk :: "part list"

text \<open>
  What the run has done so far, in order: the commands sent; for a fetch, the message it
  gave (\<open>None\<close> when the fetch or the parse raised); for each call of
  \<open>_process_attachment\<close>, the message it was made for, the decoded filename and the value
  returned (the path, or \<open>None\<close> after a logged failure); the log line of a message
  without attachment parts; the log line of the handler of \<open>_process_email\<close> after an
  exception.
\<close>

datatype event =
    CmdSelect
  | CmdSearch
  | Fetch email_id "message option"
  | Attempt email_id string "string option"
  | NoAttachments email_id
  | Failed email_id
  | CmdStore email_id

text \<open>
  The state the pipeline changes: the files by path, the lines appended to
  \<open>attachments.json\<close>, the events, and the number of calls made to the environment.
\<close>

record world =
  files :: "string \<rightharpoonup> string"
  json_log :: "attachment_info list"
  events :: "event list"
  tick :: nat

text \<open>
  The environment, asked by call number.  A write of an attachment opens the file for
  writing (which truncates it) and writes the payload; it can fail at either step.
  The analysis of a PDF is opaque: it leaves the summary file alone or leaves it with
  some content, and never raises to its caller.
\<close>

datatype write_result = Written | OpenFailed | WriteFailed nat

record env =
  decode_header_value :: "string \<Rightarrow> string"
  mail_select :: "nat \<Rightarrow> bool"
  mail_search :: "nat \<Rightarrow> email_id list option"
  mail_fetch :: "nat \<Rightarrow> email_id \<Rightarrow> message option"
  mail_store :: "nat \<Rightarrow> email_id \<Rightarrow> bool"
  now_stamp :: "nat \<Rightarrow> string"
  now_iso :: "nat \<Rightarrow> string"
  write_file :: "nat \<Rightarrow> write_result"
  append_log :: "nat \<Rightarrow> bool"
  pdf_summary :: "nat \<Rightarrow> string option"

text \<open>
  \<open>_process_pdf\<close>: every failure is caught inside; the only file it can touch is the
  summary file next to the attachment.
\<close>

definition process_pdf :: "env \<Rightarrow> nat \<Rightarrow> world \<Rightarrow> string \<Rightarrow> string \<Rightarrow> world" where
  "process_pdf E k w dir unique_filename =
     (case pdf_summary E k of
        None \<Rightarrow> w
      | Some text \<Rightarrow>
          w\<lparr>files := (files w)(dir @ ''/'' @ path_stem unique_filename @ ''_summary.txt'' \<mapsto> text)\<rparr>)"

text \<open>
  \<open>_process_attachment\<close>: returns the path, or \<open>None\<close> when the write or the append to
  the JSON log raised.
\<close>

definition process_attachment ::
  "watcher \<Rightarrow> env \<Rightarrow> world \<Rightarrow> string \<Rightarrow> string \<Rightarrow> string \<Rightarrow> string \<Rightarrow> string
     \<Rightarrow> world \<times> string option" where
  "process_attachment cfg E w attachment_data filename sender subject timestamp =
     (let k = tick w;
          w0 = w\<lparr>tick := k + 1\<rparr>;
          unique_filename = sanitize_filename filename sender timestamp;
          path = attachments_dir cfg @ ''/'' @ unique_filename
      in case write_file E k of
           OpenFailed \<Rightarrow> (w0, None)
         | WriteFailed n \<Rightarrow> (w0\<lparr>files := (files w0)(path \<mapsto> take n attachment_data)\<rparr>, None)
         | Written \<Rightarrow>
             (let w1 = w0\<lparr>files := (files w0)(path \<mapsto> attachment_data)\<rparr>;
                  info = \<lparr>info_timestamp = now_iso E k, info_sender = sender,
                          info_subject = subject, original_filename = filename,
                          saved_filename = unique_filename,
                          file_size = length attachment_data, file_path = path\<rparr>
              in if \<not> docker_mode cfg \<and> \<not> append_log E k then (w1, None)
                 else
                   (let w2 = (if docker_mode cfg then w1
                              else w1\<lparr>json_log := json_log w1 @ [info]\<rparr>);
                        w3 = (if endswith (lower filename) ''.pdf'' \<and> ENABLE_SUMMARIZATION cfg
                              then process_pdf E k w2 (attachments_dir cfg) unique_filename
                              else w2)
                    in (w3, Some path))))"

section \<open>Processing messages\<close>

text \<open>The condition under which the loop body calls \<open>_process_attachment\<close>.\<close>

definition qualifies :: "part \<Rightarrow> bool" where
  "qualifies p \<longleftrightarrow>
     get_content_disposition p = Some ''attachment'' \<and>
     (case get_filename p of None \<Rightarrow> False | Some f \<Rightarrow> f \<noteq> []) \<and>
     (case get_payload p of None \<Rightarrow> False | Some d \<Rightarrow> d \<noteq> [])"

text \<open>
  The body of the loop over the parts raises at a part when a call it makes there raises:
  the disposition is read for every part, the filename for an attachment part, and the
  payload when the filename is present and non-empty.
\<close>

definition part_raises :: "part \<Rightarrow> bool" where
  "part_raises p \<longleftrightarrow>
     Disposition \<in> set (raising p) \<or>
     (get_content_disposition p = Some ''attachment'' \<and>
      (Filename \<in> set (raising p) \<or>
       ((case get_filename p of None \<Rightarrow> False | Some raw \<Rightarrow> raw \<noteq> []) \<and>
        Payload \<in> set (raising p))))"

text \<open>
  The body of the loop over the parts; the flag is \<open>has_attachments\<close>.  Where a call
  raises, the result is the state at the raise.
\<close>

definition process_part ::
  "watcher \<Rightarrow> env \<Rightarrow> email_id \<Rightarrow> string \<Rightarrow> string \<Rightarrow> string \<Rightarrow> bool \<times> world \<Rightarrow> part
     \<Rightarrow> bool \<times> world" where
  "process_part cfg E email_id sender subject timestamp hw p =
     (if Disposition \<in> set (raising p) then hw
      else if get_content_disposition p = Some ''attachment'' then
        (if Filename \<in> set (raising p) then (True, snd hw)
         else
           (case get_filename p of
              None \<Rightarrow> (True, snd hw)
            | Some raw \<Rightarrow>
                if raw = [] then (True, snd hw)
                else
                  (let filename = decode_header_value E raw
                   in if Payload \<in> set (raising p) then (True, snd hw)
                      else
                        (case get_payload p of
                           None \<Rightarrow> (True, snd hw)
                         | Some attachment_data \<Rightarrow>
                             if attachment_data = [] then (True, snd hw)
                             else
                               (let (w', r) = process_attachment cfg E (snd hw)
                                                attachment_data filename sender subject
                                                timestamp
                                in (True, w'\<lparr>events := events w' @
                                                 [Attempt email_id filename r]\<rparr>))))))
      else hw)"

text \<open>
  The loop over the parts.  There is no handler inside it: the first part at which the
  body raises ends the loop, and the parts after it are not looked at.  The first
  component of the result says whether the loop ended by an exception.
\<close>

fun process_parts ::
  "watcher \<Rightarrow> env \<Rightarrow> email_id \<Rightarrow> string \<Rightarrow> string \<Rightarrow> string \<Rightarrow> bool \<times> world \<Rightarrow> part list
     \<Rightarrow> bool \<times> bool \<times> world" where
  "process_parts cfg E email_id sender subject timestamp hw [] = (False, hw)"
| "process_parts cfg E email_id sender subject timestamp hw (p # ps) =
     (if part_raises p
      then (True, process_part cfg E email_id sender subject timestamp hw p)
      else process_parts cfg E email_id sender subject timestamp
             (process_part cfg E email_id sender subject timestamp hw p) ps)"

text \<open>
  The loop of \<open>_process_email\<close> run over some parts of a fetched message.  The sender, the
  subject and the timestamp are read once, before the loop, and every iteration gets the
  same three values.
\<close>

definition run_parts ::
  "watcher \<Rightarrow> env \<Rightarrow> world \<Rightarrow> email_id \<Rightarrow> message \<Rightarrow> part list \<Rightarrow> bool \<times> bool \<times> world" where
  "run_parts cfg E w email_id msg ps =
     (let k = tick w;
          w0 = w\<lparr>events := events w @ [Fetch email_id (Some msg)], tick := k + 1\<rparr>;
          sender = decode_header_value E (msg_from msg);
          subject = decode_header_value E (msg_subject msg);
          timestamp = now_stamp E k
      in process_parts cfg E email_id sender subject timestamp (False, w0) ps)"


text \<open>
  \<open>_process_email\<close>: every exception (of the fetch, of the parse, of a call on a part) is
  caught by the one handler around the body, which logs it; then the function returns.
  The line about a message without attachments is logged only when the loop has ended
  without an exception.
\<close>

definition process_email :: "watcher \<Rightarrow> env \<Rightarrow> world \<Rightarrow> email_id \<Rightarrow> world" where
  "process_email cfg E w email_id =
     (case mail_fetch E (tick w) email_id of
        None \<Rightarrow>
          w\<lparr>events := events w @ [Fetch email_id None, Failed email_id],
             tick := tick w + 1\<rparr>
      | Some msg \<Rightarrow>
          (let (raised, has_attachments, w1) = run_parts cfg E w email_id msg (walk msg)
           in if raised then w1\<lparr>events := events w1 @ [Failed email_id]\<rparr>
              else if has_attachments then w1
              else w1\<lparr>events := events w1 @ [NoAttachments email_id]\<rparr>))"

text \<open>
  The loop over the unseen ids, the same in \<open>start\<close>, \<open>_process_new_messages\<close>,
  \<open>_poll_once\<close> and \<open>_poll_inbox\<close>: process the message, then send the store command.
  A store that raises ends the loop, in the handler around it.
\<close>

fun process_unseen :: "watcher \<Rightarrow> env \<Rightarrow> world \<Rightarrow> email_id list \<Rightarrow> world" where
  "process_unseen cfg E w [] = w"
| "process_unseen cfg E w (email_id # rest) =
     (let w1 = process_email cfg E w email_id;
          w2 = w1\<lparr>events := events w1 @ [CmdStore email_id], tick := tick w1 + 1\<rparr>
      in if mail_store E (tick w1) email_id then process_unseen cfg E w2 rest else w2)"

text \<open>\<open>_process_new_messages\<close>; the flag says whether \<open>self.mail\<close> is set.\<close>

definition process_new_messages :: "watcher \<Rightarrow> env \<Rightarrow> world \<Rightarrow> bool \<Rightarrow> world" where
  "process_new_messages cfg E w has_mail =
     (if \<not> has_mail then w
      else
        (let k = tick w;
             w0 = w\<lparr>events := events w @ [CmdSelect], tick := k + 1\<rparr>
         in if \<not> mail_select E k then w0
            else
              (let w1 = w0\<lparr>events := events w0 @ [CmdSearch]\<rparr>
               in case mail_search E k of
                    None \<Rightarrow> w1
                  | Some unseen_ids \<Rightarrow> process_unseen cfg E w1 unseen_ids)))"


section \<open>The monitor\<close>

text \<open>
  \<open>start\<close> and \<open>_monitor_inbox\<close> as a machine.  A location is the operation the monitor
  is executing: a call that can block or fail.  An input is what happens there: the
  operation returns (with the bytes read, for a \<open>readline\<close>) or raises, at a wall-clock
  time, or a shutdown signal arrives while it is pending.  The calls into the pipeline
  (\<open>ExistingUnseen\<close>, \<open>ProcessNewMessages\<close>, \<open>PollOnce\<close>) and \<open>_connect_gmail\<close> catch
  every exception; for them \<open>Raise\<close> stands for the caught failure, and for
  \<open>_connect_gmail\<close> it is the result \<open>False\<close>.  \<open>SignalSwallowed\<close> is a signal that
  arrives while a call into the pipeline is inside a bare \<open>except\<close> of the pipeline (in
  \<open>_decode_header_value\<close> or \<open>_create_smart_description\<close>).
\<close>

datatype exit_reason = InitialConnectFailed | BySignal | LoopEnded

datatype loc =
    StartConnect
  | StartCatchup
  | Connect
  | Sleep30
  | Select
  | SendIdle
  | AwaitAck
  | IdleWaiting
  | SendDoneNew
  | AwaitTagNew
  | ProcessNew
  | SendDoneRefresh
  | AwaitTagRefresh
  | InnerExcept
  | OuterLogout
  | OuterConnect
  | OuterPoll
  | Sleep10
  | Exited exit_reason

datatype action =
    ConnectGmail
  | ExistingUnseen
  | SelectInbox
  | Send string
  | Logout
  | ProcessNewMessages
  | PollOnce
  | Sleep nat
  | SysExit nat
  | Return

datatype outcome = Raise | Ret string

datatype input = Returns outcome | Signal nat | SignalSwallowed nat

type_synonym timed_input = "real \<times> input"

text \<open>
  The library as the monitor uses it: the tag that the k-th call of \<open>_new_tag\<close> hands out,
  as a \<open>str\<close>, and \<open>bytes.decode('utf-8', errors='ignore')\<close>.
\<close>

record imap_lib =
  new_tag :: "nat \<Rightarrow> string"
  decode :: "string \<Rightarrow> string"

record monitor =
  pc :: loc
  running :: bool
  mail :: bool
  tag :: string
  tagnum :: nat
  idle_start_time :: real
  out :: "action list"

definition initial :: monitor where
  "initial = \<lparr>pc = StartConnect, running = True, mail = False, tag = [], tagnum = 0,
              idle_start_time = 0, out = []\<rparr>"

definition crlf :: string where
  "crlf = [CHR 0x0D, CHR 0x0A]"

definition emit :: "action \<Rightarrow> monitor \<Rightarrow> monitor" where
  "emit a m = m\<lparr>out := out m @ [a]\<rparr>"

text \<open>The test of the outer \<open>while self.running\<close>, and the branch on \<open>self.mail\<close> below it.\<close>

definition loop_head :: "monitor \<Rightarrow> monitor" where
  "loop_head m =
     (if running m then m\<lparr>pc := (if mail m then Select else Connect)\<rparr>
      else (emit Return m)\<lparr>pc := Exited LoopEnded\<rparr>)"

text \<open>The test of the inner \<open>while self.running\<close>.\<close>

definition inner_head :: "monitor \<Rightarrow> monitor" where
  "inner_head m = (if running m then m\<lparr>pc := IdleWaiting\<rparr> else loop_head m)"

text \<open>An operation of the monitor returns or raises at time \<open>t\<close>.\<close>

definition returns :: "imap_lib \<Rightarrow> monitor \<Rightarrow> real \<Rightarrow> outcome \<Rightarrow> monitor" where
  "returns L m t r =
     (case pc m of
        StartConnect \<Rightarrow>
          (case r of
             Ret _ \<Rightarrow> (emit ConnectGmail m)\<lparr>mail := True, pc := StartCatchup\<rparr>
           | Raise \<Rightarrow> (emit Return (emit ConnectGmail m))\<lparr>pc := Exited InitialConnectFailed\<rparr>)
      | StartCatchup \<Rightarrow> loop_head (emit ExistingUnseen m)
      | Connect \<Rightarrow>
          (case r of
             Ret _ \<Rightarrow> (emit ConnectGmail m)\<lparr>mail := True, pc := Select\<rparr>
           | Raise \<Rightarrow> (emit ConnectGmail m)\<lparr>pc := Sleep30\<rparr>)
      | Sleep30 \<Rightarrow> loop_head (emit (Sleep 30) m)
      | Select \<Rightarrow>
          (case r of
             Raise \<Rightarrow> (emit SelectInbox m)\<lparr>pc := OuterLogout\<rparr>
           | Ret _ \<Rightarrow> (emit SelectInbox m)
                        \<lparr>tag := new_tag L (tagnum m), tagnum := tagnum m + 1, pc := SendIdle\<rparr>)
      | SendIdle \<Rightarrow>
          (case r of
             Raise \<Rightarrow> (emit (Send (tag m @ '' IDLE'' @ crlf)) m)\<lparr>pc := OuterLogout\<rparr>
           | Ret _ \<Rightarrow> (emit (Send (tag m @ '' IDLE'' @ crlf)) m)\<lparr>pc := AwaitAck\<rparr>)
      | AwaitAck \<Rightarrow>
          (case r of
             Raise \<Rightarrow> m\<lparr>pc := OuterLogout\<rparr>
           | Ret line \<Rightarrow>
               (let line_str = decode L line
                in if startswith line ''+ idling'' then inner_head (m\<lparr>idle_start_time := t\<rparr>)
                   else if contains (tag m) line_str \<and> contains ''OK'' line_str
                   then inner_head (m\<lparr>idle_start_time := t\<rparr>)
                   else if contains ''NO'' line_str \<or> contains ''BAD'' line_str
                   then m\<lparr>pc := OuterLogout\<rparr>
                   else m))
      | IdleWaiting \<Rightarrow>
          (case r of
             Raise \<Rightarrow> m\<lparr>pc := InnerExcept\<rparr>
           | Ret line \<Rightarrow>
               if line \<noteq> [] \<and> contains ''EXISTS'' (decode L line) then m\<lparr>pc := SendDoneNew\<rparr>
               else if t - idle_start_time m > 1740 then m\<lparr>pc := SendDoneRefresh\<rparr>
               else inner_head m)
      | SendDoneNew \<Rightarrow>
          (case r of
             Raise \<Rightarrow> (emit (Send (''DONE'' @ crlf)) m)\<lparr>pc := InnerExcept\<rparr>
           | Ret _ \<Rightarrow> (emit (Send (''DONE'' @ crlf)) m)\<lparr>pc := AwaitTagNew\<rparr>)
      | AwaitTagNew \<Rightarrow>
          (case r of
             Raise \<Rightarrow> m\<lparr>pc := InnerExcept\<rparr>
           | Ret resp \<Rightarrow> if contains (tag m) (decode L resp) then m\<lparr>pc := ProcessNew\<rparr> else m)
      | ProcessNew \<Rightarrow> loop_head (emit ProcessNewMessages m)
      | SendDoneRefresh \<Rightarrow>
          (case r of
             Raise \<Rightarrow> (emit (Send (''DONE'' @ crlf)) m)\<lparr>pc := InnerExcept\<rparr>
           | Ret _ \<Rightarrow> (emit (Send (''DONE'' @ crlf)) m)\<lparr>pc := AwaitTagRefresh\<rparr>)
      | AwaitTagRefresh \<Rightarrow>
          (case r of
             Raise \<Rightarrow> m\<lparr>pc := InnerExcept\<rparr>
           | Ret resp \<Rightarrow> if contains (tag m) (decode L resp) then loop_head m else m)
      | InnerExcept \<Rightarrow> loop_head (emit (Send (''DONE'' @ crlf)) m)
      | OuterLogout \<Rightarrow>
          (if mail m then emit Logout m else m)\<lparr>mail := False, pc := OuterConnect\<rparr>
      | OuterConnect \<Rightarrow>
          (case r of
             Ret _ \<Rightarrow> (emit ConnectGmail m)\<lparr>mail := True, pc := OuterPoll\<rparr>
           | Raise \<Rightarrow> (emit ConnectGmail m)\<lparr>pc := Sleep10\<rparr>)
      | OuterPoll \<Rightarrow> (emit PollOnce m)\<lparr>pc := Sleep10\<rparr>
      | Sleep10 \<Rightarrow> loop_head (emit (Sleep 10) m)
      | Exited x \<Rightarrow> m)"

text \<open>
  \<open>_signal_handler\<close>, run while the operation of the location is pending: it clears
  \<open>running\<close>, logs out when there is a connection (ignoring a failure) and calls
  \<open>sys.exit(0)\<close>.  The exit is an exception that \<open>except Exception\<close> lets through, and
  then the process ends.  A bare \<open>except\<close> swallows it: the two of the monitor (around
  the \<open>DONE\<close> of the inner handler and around the logout of the outer handler) always,
  and those inside the pipeline when the signal arrives there (\<open>swallowed\<close>); then the
  pending operation goes on, and the monitor ends at the next test of \<open>running\<close>.
\<close>

definition signal_handler :: "monitor \<Rightarrow> nat \<Rightarrow> bool \<Rightarrow> monitor" where
  "signal_handler m signum swallowed =
     (case pc m of
        Exited x \<Rightarrow> m
      | _ \<Rightarrow>
        (let m1 = m\<lparr>running := False\<rparr>;
             m2 = (if mail m1 then emit Logout m1 else m1);
             m3 = emit (SysExit 0) m2
         in if pc m = InnerExcept then loop_head m3
            else if pc m = OuterLogout then m3\<lparr>mail := False, pc := OuterConnect\<rparr>
            else if swallowed \<and> (pc m = StartCatchup \<or> pc m = ProcessNew \<or> pc m = OuterPoll)
            then m3
            else m3\<lparr>pc := Exited BySignal\<rparr>))"

definition step :: "imap_lib \<Rightarrow> monitor \<Rightarrow> timed_input \<Rightarrow> monitor" where
  "step L m ti =
     (case snd ti of
        Returns r \<Rightarrow> returns L m (fst ti) r
      | Signal signum \<Rightarrow> signal_handler m signum False
      | SignalSwallowed signum \<Rightarrow> signal_handler m signum True)"

definition run :: "imap_lib \<Rightarrow> monitor \<Rightarrow> timed_input list \<Rightarrow> monitor" where
  "run L m ins = foldl (step L) m ins"

text \<open>
  Where the monitor is at wall-clock time \<open>T\<close>, given what the environment does and when:
  an operation that has not returned by then leaves the monitor at its location.
\<close>

definition state_at :: "imap_lib \<Rightarrow> monitor \<Rightarrow> timed_input list \<Rightarrow> real \<Rightarrow> monitor" where
  "state_at L m ins T = run L m (takeWhile (\<lambda>ti. fst ti \<le> T) ins)"

definition is_exited :: "monitor \<Rightarrow> bool" where
  "is_exited m = (case pc m of Exited x \<Rightarrow> True | _ \<Rightarrow> False)"

section \<open>What a finished message leaves in the events\<close>

text \<open>
  The events between the fetch of a message and its store command, for a message \<open>res\<close>
  as fetched.  After a failed fetch: the log line of the handler.  Otherwise, for each
  qualifying part that the loop reaches (the parts before the first one at which the
  body raises), in order, one call of \<open>_process_attachment\<close> with the decoded filename,
  whatever it returned; then the log line of the handler when a part raised, and else
  the line about attachments when no part has the disposition \<open>attachment\<close>.
\<close>

definition part_name :: "env \<Rightarrow> part \<Rightarrow> string" where
  "part_name E p = (case get_filename p of None \<Rightarrow> [] | Some raw \<Rightarrow> decode_header_value E raw)"

definition is_attempt_for :: "email_id \<Rightarrow> string \<Rightarrow> event \<Rightarrow> bool" where
  "is_attempt_for i name ev = (case ev of Attempt j f r \<Rightarrow> j = i \<and> f = name | _ \<Rightarrow> False)"

definition has_attachment_part :: "part list \<Rightarrow> bool" where
  "has_attachment_part ps = list_ex (\<lambda>p. get_content_disposition p = Some ''attachment'') ps"

definition reached :: "part list \<Rightarrow> part list" where
  "reached ps = takeWhile (\<lambda>p. \<not> part_raises p) ps"

definition processed :: "env \<Rightarrow> email_id \<Rightarrow> message option \<Rightarrow> event list \<Rightarrow> bool" where
  "processed E i res tail =
     (case res of
        None \<Rightarrow> tail = [Failed i]
      | Some msg \<Rightarrow>
          (let n = length (filter qualifies (reached (walk msg)))
           in list_all2 (\<lambda>p ev. is_attempt_for i (part_name E p) ev)
                (filter qualifies (reached (walk msg))) (take n tail) \<and>
              drop n tail = (if list_ex part_raises (walk msg) then [Failed i]
                             else if has_attachment_part (walk msg) then []
                             else [NoAttachments i])))"

section \<open>Concrete inputs\<close>

definition local_cfg :: watcher where
  "local_cfg = \<lparr>attachments_dir = ''/data/attachments'', docker_mode = False,
                ENABLE_SUMMARIZATION = True\<rparr>"

definition docker_cfg :: watcher where
  "docker_cfg = \<lparr>attachments_dir = ''/app/attachments'', docker_mode = True,
                 ENABLE_SUMMARIZATION = True\<rparr>"

definition report_part :: part where
  "report_part = \<lparr>get_content_disposition = Some ''attachment'',
                  get_filename = Some ''Report (Final).PDF'', get_payload = Some ''%PDF-1.4'',
                  raising = []\<rparr>"

definition report_part2 :: part where
  "report_part2 = \<lparr>get_content_disposition = Some ''attachment'',
                   get_filename = Some ''Report (Final).PDF'', get_payload = Some ''second'',
                   raising = []\<rparr>"

definition nameless_part :: part where
  "nameless_part = \<lparr>get_content_disposition = Some ''attachment'',
                    get_filename = None, get_payload = Some ''data'', raising = []\<rparr>"

definition body_part :: part where
  "body_part = \<lparr>get_content_disposition = None, get_filename = None,
                get_payload = Some ''hello'', raising = []\<rparr>"

text \<open>An attachment part whose filename parameter cannot be read, and one after it.\<close>

definition broken_part :: part where
  "broken_part = \<lparr>get_content_disposition = Some ''attachment'', get_filename = None,
                  get_payload = Some ''data'', raising = [Filename]\<rparr>"

definition notes_part :: part where
  "notes_part = \<lparr>get_content_disposition = Some ''attachment'',
                 get_filename = Some ''notes.txt'', get_payload = Some ''notes'',
                 raising = []\<rparr>"

definition msg_report :: message where
  "msg_report = \<lparr>msg_from = ''Jane Doe <jane@ex.com>'', msg_subject = ''Report'',
                 walk = [body_part, report_part]\<rparr>"

definition msg_twice :: message where
  "msg_twice = \<lparr>msg_from = ''Jane Doe <jane@ex.com>'', msg_subject = ''Report'',
                walk = [body_part, report_part, report_part2]\<rparr>"

definition msg_nameless :: message where
  "msg_nameless = \<lparr>msg_from = ''Jane Doe <jane@ex.com>'', msg_subject = ''No name'',
                   walk = [body_part, nameless_part]\<rparr>"

definition msg_broken :: message where
  "msg_broken = \<lparr>msg_from = ''Jane Doe <jane@ex.com>'', msg_subject = ''Broken'',
                 walk = [body_part, report_part, broken_part, notes_part]\<rparr>"

definition mailbox :: "email_id \<Rightarrow> message option" where
  "mailbox i = (if i = ''1'' then Some msg_report
                else if i = ''2'' then Some msg_nameless
                else if i = ''3'' then Some msg_twice
                else if i = ''4'' then Some msg_broken
                else None)"

text \<open>An environment where every call succeeds, and one whose disk refuses every write.\<close>

definition env_ok :: env where
  "env_ok = \<lparr>decode_header_value = (\<lambda>s. s), mail_select = (\<lambda>k. True),
              mail_search = (\<lambda>k. Some [''1'', ''2'']), mail_fetch = (\<lambda>k. mailbox),
              mail_store = (\<lambda>k i. True), now_stamp = (\<lambda>k. ''20240101_120000''),
              now_iso = (\<lambda>k. ''2024-01-01T12:00:00''), write_file = (\<lambda>k. Written),
              append_log = (\<lambda>k. True), pdf_summary = (\<lambda>k. Some ''summary'')\<rparr>"

definition env_disk_full :: env where
  "env_disk_full = env_ok\<lparr>write_file := (\<lambda>k. OpenFailed)\<rparr>"


definition world0 :: world where
  "world0 = \<lparr>files = Map.empty, json_log = [], events = [], tick = 0\<rparr>"

definition lib0 :: imap_lib where
  "lib0 = \<lparr>new_tag = (\<lambda>k. ''BGNL'' @ [''0123456789'' ! (k mod 10)]), decode = (\<lambda>s. s)\<rparr>"

text \<open>
  The inputs that take the monitor from its start into the wait for a push: the
  connection, the first scan, the select and the send succeed, and the server answers
  the idle command at time 4.
\<close>

definition to_idle :: "timed_input list" where
  "to_idle = [(0, Returns (Ret [])), (1, Returns (Ret [])), (2, Returns (Ret [])),
              (3, Returns (Ret [])), (4, Returns (Ret ''+ idling''))]"

text \<open>
  An outage after a successful start: the first scan returns, the select raises, the
  handler logs out, its reconnection fails, and the monitor sleeps ten seconds.
\<close>

definition outage :: "timed_input list" where
  "outage = [(1, Returns (Ret [])), (2, Returns Raise), (3, Returns (Ret [])),
             (4, Returns Raise), (14, Returns (Ret []))]"

section \<open>The filename sanitizer: results\<close>

text \<open>
  C6.  For the sender \<open>Jane Doe <jane@ex.com>\<close>, the original filename
  \<open>Report (Final).PDF\<close> and the timestamp \<open>20240101_120000\<close>, the sanitizer returns
  exactly \<open>jane_ex_com_20240101_120000_Report__Final_.pdf\<close>.
\<close>

theorem sanitize_filename_jane_doe:
  "sanitize_filename ''Report (Final).PDF'' ''Jane Doe <jane@ex.com>'' ''20240101_120000''
     = ''jane_ex_com_20240101_120000_Report__Final_.pdf''"
  by code_simp

subsection \<open>Characters and lower-casing\<close>

lemma code_inj: "code c = code d \<longleftrightarrow> c = d"
  by (simp add: code_def)

lemma code_less: "code c < 256"
  by (simp add: code_def)

lemma code_lower_char:
  "code (lower_char c) =
     (if (65 \<le> code c \<and> code c \<le> 90) \<or> (192 \<le> code c \<and> code c \<le> 222 \<and> code c \<noteq> 215)
      then code c + 32 else code c)"
  using code_less [of c] by (auto simp: lower_char_def Let_def code_def)

lemma lower_char_idem: "lower_char (lower_char c) = lower_char c"
  unfolding code_inj [symmetric] by (simp add: code_lower_char)

lemma lower_char_fixed: "code d < 65 \<Longrightarrow> lower_char c = d \<longleftrightarrow> c = d"
  unfolding code_inj [symmetric] by (auto simp: code_lower_char)

lemma lower_char_lt [simp]: "lower_char c = CHR ''<'' \<longleftrightarrow> c = CHR ''<''"
  by (rule lower_char_fixed) (simp add: code_def)

lemma lower_char_gt [simp]: "lower_char c = CHR ''>'' \<longleftrightarrow> c = CHR ''>''"
  by (rule lower_char_fixed) (simp add: code_def)

lemma lower_char_at [simp]: "lower_char c = CHR ''@'' \<longleftrightarrow> c = CHR ''@''"
  by (rule lower_char_fixed) (simp add: code_def)

lemma lower_char_nl [simp]: "lower_char c = CHR 0x0A \<longleftrightarrow> c = CHR 0x0A"
  by (rule lower_char_fixed) (simp add: code_def)

lemma lower_char_dot [simp]: "lower_char c = CHR ''.'' \<longleftrightarrow> c = CHR ''.''"
  by (rule lower_char_fixed) (simp add: code_def)

lemma lower_char_slash [simp]: "lower_char c = CHR ''/'' \<longleftrightarrow> c = CHR ''/''"
  by (rule lower_char_fixed) (simp add: code_def)

lemma is_space_lower_char [simp]: "is_space (lower_char c) = is_space c"
  by (auto simp add: is_space_def Let_def code_lower_char)

lemma addr_class_lower_char [simp]: "addr_class (lower_char c) = addr_class c"
  by (simp add: addr_class_def)

lemma lower_Nil [simp]: "lower [] = []"
  by (simp add: lower_def)

lemma lower_Cons [simp]: "lower (c # cs) = lower_char c # lower cs"
  by (simp add: lower_def)

lemma lower_append: "lower (xs @ ys) = lower xs @ lower ys"
  by (simp add: lower_def)

lemma lazy_dots_lower: "lazy_dots (lower acc) (lower s) = map_option lower (lazy_dots acc s)"
proof (induction s arbitrary: acc)
  case Nil
  show ?case by simp
next
  case (Cons d ds)
  have "lazy_dots (lower acc @ [lower_char d]) (lower ds) = map_option lower (lazy_dots (acc @ [d]) ds)"
    using Cons.IH [of "acc @ [d]"] by (simp add: lower_append)
  then show ?case by simp
qed

lemma alt_bracket_lower: "alt_bracket (lower s) = map_option lower (alt_bracket s)"
proof (cases s rule: alt_bracket.cases)
  case (1 a c rest)
  then show ?thesis using lazy_dots_lower [of "[c]" rest] by simp
qed simp_all

lemma takeWhile_lower: "takeWhile addr_class (lower s) = lower (takeWhile addr_class s)"
  by (induction s) simp_all

lemma at_in_lower: "CHR ''@'' \<in> set (lower s) \<longleftrightarrow> CHR ''@'' \<in> set s"
  by (induction s) (simp_all add: eq_commute [of "CHR ''@''"])

lemma butlast_lower: "butlast (lower s) = lower (butlast s)"
  by (simp add: lower_def map_butlast)

lemma tl_lower: "tl (lower s) = lower (tl s)"
  by (simp add: lower_def map_tl)

lemma alt_addr_lower: "alt_addr (lower s) = map_option lower (alt_addr s)"
  by (simp add: alt_addr_def takeWhile_lower tl_lower butlast_lower at_in_lower Let_def)

lemma search_addr_lower: "search_addr (lower s) = map_option lower (search_addr s)"
proof (induction s)
  case Nil
  show ?case by simp
next
  case (Cons c cs)
  have a: "alt_bracket (lower_char c # lower cs) = map_option lower (alt_bracket (c # cs))"
    using alt_bracket_lower [of "c # cs"] by simp
  have b: "alt_addr (lower_char c # lower cs) = map_option lower (alt_addr (c # cs))"
    using alt_addr_lower [of "c # cs"] by simp
  show ?case
  proof (cases "alt_bracket (c # cs)")
    case (Some g)
    then show ?thesis using a by simp
  next
    case None
    note nb = this
    show ?thesis
    proof (cases "alt_addr (c # cs)")
      case (Some g)
      then show ?thesis using a b nb by simp
    next
      case None
      then show ?thesis using a b nb Cons.IH by simp
    qed
  qed
qed

lemma lower_idem: "lower (lower s) = lower s"
  by (simp add: lower_def lower_char_idem)

lemma clean_sender_of_lower: "clean_sender_of (lower s) = clean_sender_of s"
  by (simp add: clean_sender_of_def lower_idem)

text \<open>
  C10.  The sanitizer lower-cases the extracted address before the substitutions, so the
  case of the letters of the sender does not matter: for every sender, filename and
  timestamp, the result for the sender is the result for the lower-cased sender.
\<close>

theorem sanitize_filename_sender_case:
  "sanitize_filename f sender t = sanitize_filename f (lower sender) t"
  by (cases "search_addr sender")
     (simp_all add: sanitize_filename_def email_addr_of_def search_addr_lower
        clean_sender_of_lower)

subsection \<open>Extensions\<close>

lemma rfind_bounds: "-1 \<le> rfind c s \<and> rfind c s < int (length s)"
  by (induction s) (auto simp: Let_def)

lemma rfind_neg_iff: "rfind c s < 0 \<longleftrightarrow> c \<notin> set s"
  using rfind_bounds [of c] by (induction s) (auto simp: Let_def)

lemma rfind_notin: "c \<notin> set s \<Longrightarrow> rfind c s = -1"
  using rfind_neg_iff [of c s] rfind_bounds [of c s] by simp

lemma rfind_append:
  "rfind c (xs @ ys) = (if c \<in> set ys then int (length xs) + rfind c ys else rfind c xs)"
proof (induction xs)
  case Nil
  show ?case by (simp add: rfind_notin)
next
  case (Cons x xs)
  show ?case
  proof (cases "c \<in> set ys")
    case True
    then have "0 \<le> rfind c ys" using rfind_neg_iff [of c ys] by simp
    then show ?thesis using Cons True by (simp add: Let_def)
  next
    case False
    then show ?thesis using Cons by (simp add: Let_def)
  qed
qed

lemma rfind_nth: "0 \<le> rfind c s \<Longrightarrow> s ! nat (rfind c s) = c"
proof (induction s)
  case Nil
  then show ?case by simp
next
  case (Cons x xs)
  show ?case
  proof (cases "0 \<le> rfind c xs")
    case True
    then have "nat (rfind c xs + 1) = Suc (nat (rfind c xs))" by simp
    then show ?thesis using True Cons.IH by (simp add: Let_def)
  next
    case False
    then show ?thesis using Cons.prems by (simp add: Let_def split: if_splits)
  qed
qed

lemma rfind_last: "0 \<le> rfind c s \<Longrightarrow> c \<notin> set (drop (Suc (nat (rfind c s))) s)"
proof (induction s)
  case Nil
  then show ?case by simp
next
  case (Cons x xs)
  show ?case
  proof (cases "0 \<le> rfind c xs")
    case True
    then have "nat (rfind c xs + 1) = Suc (nat (rfind c xs))" by simp
    then show ?thesis using True Cons.IH by (simp add: Let_def)
  next
    case False
    then have "c \<notin> set xs" using rfind_neg_iff [of c xs] by simp
    then show ?thesis using False Cons.prems by (simp add: Let_def split: if_splits)
  qed
qed

lemma skip_leading_dots_iff:
  "skip_leading_dots p i d \<longleftrightarrow> (\<exists>k. i \<le> k \<and> k < d \<and> p ! nat k \<noteq> CHR ''.'')"
proof (induction p i d rule: skip_leading_dots.induct)
  case (1 p i d)
  show ?case
  proof (cases "i < d")
    case False
    then show ?thesis by (subst skip_leading_dots.simps) auto
  next
    case True
    show ?thesis
    proof (cases "p ! nat i \<noteq> CHR ''.''")
      case True
      with \<open>i < d\<close> show ?thesis by (subst skip_leading_dots.simps) auto
    next
      case False
      then have dot: "p ! nat i = CHR ''.''" by simp
      have "skip_leading_dots p i d = skip_leading_dots p (i + 1) d"
        using \<open>i < d\<close> dot by (subst skip_leading_dots.simps) simp
      also have "\<dots> \<longleftrightarrow> (\<exists>k. i + 1 \<le> k \<and> k < d \<and> p ! nat k \<noteq> CHR ''.'')"
        using "1.IH" \<open>i < d\<close> dot by simp
      also have "\<dots> \<longleftrightarrow> (\<exists>k. i \<le> k \<and> k < d \<and> p ! nat k \<noteq> CHR ''.'')"
      proof
        assume "\<exists>k. i + 1 \<le> k \<and> k < d \<and> p ! nat k \<noteq> CHR ''.''"
        then obtain k where "i + 1 \<le> k" "k < d" "p ! nat k \<noteq> CHR ''.''" by blast
        then have "i \<le> k \<and> k < d \<and> p ! nat k \<noteq> CHR ''.''" by simp
        then show "\<exists>k. i \<le> k \<and> k < d \<and> p ! nat k \<noteq> CHR ''.''" by blast
      next
        assume "\<exists>k. i \<le> k \<and> k < d \<and> p ! nat k \<noteq> CHR ''.''"
        then obtain k where k: "i \<le> k" "k < d" "p ! nat k \<noteq> CHR ''.''" by blast
        then have "k \<noteq> i" using dot by auto
        then have "i + 1 \<le> k \<and> k < d \<and> p ! nat k \<noteq> CHR ''.''" using k by simp
        then show "\<exists>k. i + 1 \<le> k \<and> k < d \<and> p ! nat k \<noteq> CHR ''.''" by blast
      qed
      finally show ?thesis .
    qed
  qed
qed

text \<open>The shape of a non-empty extension.\<close>

lemma splitext_append: "fst (splitext p) @ snd (splitext p) = p"
  by (simp add: splitext_def Let_def)

lemma splitext_ext_shape:
  assumes "snd (splitext p) \<noteq> []"
  shows "\<exists>e. snd (splitext p) = CHR ''.'' # e \<and> CHR ''.'' \<notin> set e \<and> CHR ''/'' \<notin> set e"
proof -
  let ?d = "rfind CHR ''.'' p" and ?s = "rfind CHR ''/'' p"
  from assms have gt: "?d > ?s" and ext: "snd (splitext p) = drop (nat ?d) p"
    by (auto simp: splitext_def Let_def split: if_splits)
  have d0: "0 \<le> ?d" using gt rfind_bounds [of "CHR ''/''" p] by linarith
  have dlen: "nat ?d < length p" using rfind_bounds [of "CHR ''.''" p] d0 by linarith
  have hd: "p ! nat ?d = CHR ''.''" using rfind_nth [OF d0] .
  have drop: "drop (nat ?d) p = CHR ''.'' # drop (Suc (nat ?d)) p"
    using dlen hd by (metis Cons_nth_drop_Suc)
  have nodot: "CHR ''.'' \<notin> set (drop (Suc (nat ?d)) p)" using rfind_last [OF d0] .
  have noslash: "CHR ''/'' \<notin> set (drop (Suc (nat ?d)) p)"
  proof (cases "0 \<le> ?s")
    case False
    then have "CHR ''/'' \<notin> set p" using rfind_neg_iff [of "CHR ''/''" p] by simp
    then show ?thesis by (meson in_set_dropD)
  next
    case True
    have "CHR ''/'' \<notin> set (drop (Suc (nat ?s)) p)" using rfind_last [OF True] .
    moreover have "set (drop (Suc (nat ?d)) p) \<subseteq> set (drop (Suc (nat ?s)) p)"
      using gt True by (intro set_drop_subset_set_drop) simp
    ultimately show ?thesis by blast
  qed
  show ?thesis using ext drop nodot noslash by simp
qed

lemma splitext_of_append:
  assumes e: "CHR ''.'' \<notin> set e" "CHR ''/'' \<notin> set e"
    and k: "rfind CHR ''/'' a < int k" "k < length a" "a ! k \<noteq> CHR ''.''"
  shows "splitext (a @ CHR ''.'' # e) = (a, CHR ''.'' # e)"
proof -
  let ?p = "a @ CHR ''.'' # e"
  have d: "rfind CHR ''.'' ?p = int (length a)"
    using e by (simp add: rfind_append rfind_notin Let_def)
  have s: "rfind CHR ''/'' ?p = rfind CHR ''/'' a"
    using e by (simp add: rfind_append)
  have lt: "rfind CHR ''/'' a < int (length a)" using rfind_bounds [of "CHR ''/''" a] by simp
  have "?p ! nat (int k) \<noteq> CHR ''.''" using k by (simp add: nth_append)
  then have "\<exists>j. rfind CHR ''/'' a + 1 \<le> j \<and> j < int (length a) \<and> ?p ! nat j \<noteq> CHR ''.''"
    using k by (intro exI [of _ "int k"]) simp
  then have "skip_leading_dots ?p (rfind CHR ''/'' a + 1) (int (length a))"
    by (simp only: skip_leading_dots_iff)
  then show ?thesis using d s lt by (simp add: splitext_def Let_def)
qed

subsection \<open>The characters of the result\<close>

lemma code_underscore: "code c = 95 \<longleftrightarrow> c = CHR ''_''"
  unfolding code_inj [symmetric] by (simp add: code_def)

lemma code_dash: "code c = 45 \<longleftrightarrow> c = CHR ''-''"
  unfolding code_inj [symmetric] by (simp add: code_def)

lemma code_dot: "code c = 46 \<longleftrightarrow> c = CHR ''.''"
  unfolding code_inj [symmetric] by (simp add: code_def)

lemma allowed_char_code:
  "allowed_char c \<longleftrightarrow>
     (65 \<le> code c \<and> code c \<le> 90) \<or> (97 \<le> code c \<and> code c \<le> 122) \<or>
     (48 \<le> code c \<and> code c \<le> 57) \<or> code c = 95 \<or> code c = 46 \<or> code c = 45"
  by (simp add: allowed_char_def code_underscore code_dash code_dot)

lemma ascii_word_allowed: "is_ascii c \<Longrightarrow> is_word c \<Longrightarrow> allowed_char c"
  by (auto simp: is_ascii_def is_word_def Let_def allowed_char_code)

lemma allowed_lower_char: "allowed_char c \<Longrightarrow> allowed_char (lower_char c)"
  by (auto simp: allowed_char_code code_lower_char)

lemma is_ascii_lower_char: "is_ascii c \<Longrightarrow> is_ascii (lower_char c)"
  by (auto simp: is_ascii_def code_lower_char)

lemma allowed_underscore: "allowed_char CHR ''_''"
  by (simp add: allowed_char_def)

lemma not_word_slash: "\<not> is_word CHR ''/''"
  by (simp add: is_word_def code_def)

lemma lazy_dots_subset: "lazy_dots acc s = Some g \<Longrightarrow> set g \<subseteq> set acc \<union> set s"
proof (induction s arbitrary: acc)
  case Nil
  then show ?case by simp
next
  case (Cons d ds)
  show ?case
  proof (cases "d = CHR ''>''")
    case True
    then show ?thesis using Cons.prems by auto
  next
    case False
    then have "lazy_dots (acc @ [d]) ds = Some g"
      using Cons.prems by (simp split: if_splits)
    then have "set g \<subseteq> set (acc @ [d]) \<union> set ds" by (rule Cons.IH)
    then show ?thesis by auto
  qed
qed

lemma alt_bracket_subset: "alt_bracket s = Some g \<Longrightarrow> set g \<subseteq> set s"
proof (cases s rule: alt_bracket.cases)
  case (1 a c rest)
  assume "alt_bracket s = Some g"
  then have "lazy_dots [c] rest = Some g" using 1 by (simp split: if_splits)
  then have "set g \<subseteq> set [c] \<union> set rest" by (rule lazy_dots_subset)
  then show ?thesis using 1 by auto
qed simp_all

lemma alt_addr_subset: "alt_addr s = Some g \<Longrightarrow> set g \<subseteq> set s"
  by (auto simp: alt_addr_def Let_def split: if_splits dest: set_takeWhileD)

lemma search_addr_subset: "search_addr s = Some g \<Longrightarrow> set g \<subseteq> set s"
proof (induction s)
  case Nil
  then show ?case by simp
next
  case (Cons c cs)
  show ?case
  proof (cases "alt_bracket (c # cs)")
    case (Some b)
    then show ?thesis using Cons.prems alt_bracket_subset [of "c # cs" g] by simp
  next
    case None
    note nb = this
    show ?thesis
    proof (cases "alt_addr (c # cs)")
      case (Some b)
      then show ?thesis using Cons.prems nb alt_addr_subset [of "c # cs" g] by simp
    next
      case None
      then have "search_addr cs = Some g" using Cons.prems nb by simp
      then have "set g \<subseteq> set cs" by (rule Cons.IH)
      then show ?thesis by auto
    qed
  qed
qed

lemma email_addr_of_subset: "set (email_addr_of sender) \<subseteq> set sender"
  using search_addr_subset [of sender] by (auto simp: email_addr_of_def split: option.splits)

lemma clean_sender_of_allowed:
  assumes "\<forall>c\<in>set a. is_ascii c"
  shows "\<forall>c\<in>set (clean_sender_of a). allowed_char c"
proof
  fix c assume "c \<in> set (clean_sender_of a)"
  then obtain d where d: "d \<in> set a"
    and c: "c = (if lower_char d = CHR ''<'' \<or> lower_char d = CHR ''>'' \<or> lower_char d = CHR ''@'' \<or> lower_char d = CHR ''.'' then CHR ''_'' else lower_char d)"
    and w: "is_word c \<or> c = CHR ''-'' \<or> c = CHR ''_''"
    by (auto simp: clean_sender_of_def lower_def)
  have "is_ascii (lower_char d)" using assms d is_ascii_lower_char by blast
  then have "is_ascii c" using c by (auto simp: is_ascii_def code_def)
  then show "allowed_char c" using w ascii_word_allowed by (auto simp: allowed_char_def)
qed

lemma clean_sender_of_no_slash: "CHR ''/'' \<notin> set (clean_sender_of a)"
  using not_word_slash by (auto simp: clean_sender_of_def)

lemma clean_name_of_allowed:
  assumes "\<forall>c\<in>set n. is_ascii c"
  shows "\<forall>c\<in>set (clean_name_of n). allowed_char c"
proof
  fix c assume "c \<in> set (clean_name_of n)"
  then obtain d where d: "d \<in> set n"
    and c: "c = (if is_word d \<or> d = CHR ''-'' \<or> d = CHR ''_'' \<or> d = CHR ''.'' then d else CHR ''_'')"
    by (auto simp: clean_name_of_def)
  have "is_ascii d" using assms d by blast
  then show "allowed_char c" using c ascii_word_allowed [of d] by (auto simp: allowed_char_def)
qed

lemma clean_name_of_no_slash: "CHR ''/'' \<notin> set (clean_name_of n)"
  using not_word_slash by (auto simp: clean_name_of_def)

lemma dot_in_lower: "CHR ''.'' \<in> set (lower s) \<longleftrightarrow> CHR ''.'' \<in> set s"
  by (induction s) (simp_all add: eq_commute [of "CHR ''.''"])

lemma slash_in_lower: "CHR ''/'' \<in> set (lower s) \<longleftrightarrow> CHR ''/'' \<in> set s"
  by (induction s) (simp_all add: eq_commute [of "CHR ''/''"])

lemma startswith_append: "startswith (p @ s) p"
  by (induction p) simp_all

lemma endswith_append: "endswith (a @ b) b"
  by (simp add: endswith_def startswith_append)

lemma sanitize_filename_eq:
  "sanitize_filename filename sender timestamp =
     clean_sender_of (email_addr_of sender) @ ''_'' @ timestamp @ ''_'' @
     clean_name_of (fst (splitext filename)) @ lower (snd (splitext filename))"
  by (simp add: sanitize_filename_def Let_def split: prod.splits)

lemma splitext_sanitize_filename:
  assumes "snd (splitext filename) \<noteq> []"
  shows "splitext (sanitize_filename filename sender timestamp) =
           (clean_sender_of (email_addr_of sender) @ ''_'' @ timestamp @ ''_'' @
              clean_name_of (fst (splitext filename)),
            lower (snd (splitext filename)))"
proof -
  obtain e where e: "snd (splitext filename) = CHR ''.'' # e" "CHR ''.'' \<notin> set e" "CHR ''/'' \<notin> set e"
    using splitext_ext_shape [OF assms] by blast
  let ?h = "clean_sender_of (email_addr_of sender) @ ''_'' @ timestamp"
  let ?n = "clean_name_of (fst (splitext filename))"
  let ?a = "?h @ ''_'' @ ?n"
  have le: "lower (snd (splitext filename)) = CHR ''.'' # lower e" using e by simp
  have e': "CHR ''.'' \<notin> set (lower e)" "CHR ''/'' \<notin> set (lower e)"
    using e by (simp_all add: dot_in_lower slash_in_lower)
  have "CHR ''/'' \<notin> set (''_'' @ ?n)" using clean_name_of_no_slash by simp
  then have "rfind CHR ''/'' ?a = rfind CHR ''/'' ?h"
    using rfind_append [of "CHR ''/''" ?h "''_'' @ ?n"] by simp
  then have k1: "rfind CHR ''/'' ?a < int (length ?h)"
    using rfind_bounds [of "CHR ''/''" ?h] by simp
  have k2: "length ?h < length ?a" by simp
  have k3: "?a ! length ?h \<noteq> CHR ''.''"
    using nth_append_length [of ?h "CHR ''_''" ?n] by simp
  have "splitext (?a @ CHR ''.'' # lower e) = (?a, CHR ''.'' # lower e)"
    using e' k1 k2 k3 by (rule splitext_of_append)
  then show ?thesis by (simp add: sanitize_filename_eq le)
qed

text \<open>
  C5, as the code has it.  The extension and the timestamp go into the result as they
  are (the extension lower-cased), and \<open>\w\<close> keeps letters beyond ASCII.  So: for a sender
  and a filename of ASCII characters, and a timestamp and an extension of characters in
  \<open>[A-Za-z0-9_.-]\<close>, the result has only characters in \<open>[A-Za-z0-9_.-]\<close>; when the
  filename has an extension, the extension of the result is that extension lower-cased;
  and the result always ends with the lower-cased extension.
\<close>

theorem sanitize_filename_charset:
  "((\<forall>c\<in>set sender. is_ascii c) \<and> (\<forall>c\<in>set filename. is_ascii c) \<and>
    (\<forall>c\<in>set timestamp. allowed_char c) \<and>
    (\<forall>c\<in>set (snd (splitext filename)). allowed_char c)
      \<longrightarrow> (\<forall>c\<in>set (sanitize_filename filename sender timestamp). allowed_char c)) \<and>
   (snd (splitext filename) \<noteq> []
      \<longrightarrow> snd (splitext (sanitize_filename filename sender timestamp))
            = lower (snd (splitext filename))) \<and>
   endswith (sanitize_filename filename sender timestamp) (lower (snd (splitext filename)))"
proof (intro conjI impI)
  assume a: "(\<forall>c\<in>set sender. is_ascii c) \<and> (\<forall>c\<in>set filename. is_ascii c) \<and>
    (\<forall>c\<in>set timestamp. allowed_char c) \<and>
    (\<forall>c\<in>set (snd (splitext filename)). allowed_char c)"
  have "\<forall>c\<in>set (email_addr_of sender). is_ascii c"
    using a email_addr_of_subset [of sender] by blast
  then have s: "\<forall>c\<in>set (clean_sender_of (email_addr_of sender)). allowed_char c"
    by (rule clean_sender_of_allowed)
  have "set (fst (splitext filename)) \<subseteq> set filename"
    using splitext_append [of filename] by (metis Un_upper1 set_append)
  then have "\<forall>c\<in>set (fst (splitext filename)). is_ascii c" using a by blast
  then have n: "\<forall>c\<in>set (clean_name_of (fst (splitext filename))). allowed_char c"
    by (rule clean_name_of_allowed)
  have x: "\<forall>c\<in>set (lower (snd (splitext filename))). allowed_char c"
    using a allowed_lower_char by (auto simp: lower_def)
  show "\<forall>c\<in>set (sanitize_filename filename sender timestamp). allowed_char c"
    using s n x a allowed_underscore by (auto simp: sanitize_filename_eq)
next
  assume "snd (splitext filename) \<noteq> []"
  then show "snd (splitext (sanitize_filename filename sender timestamp))
            = lower (snd (splitext filename))"
    by (simp add: splitext_sanitize_filename)
next
  show "endswith (sanitize_filename filename sender timestamp) (lower (snd (splitext filename)))"
    using endswith_append
      [of "clean_sender_of (email_addr_of sender) @ ''_'' @ timestamp @ ''_'' @
             clean_name_of (fst (splitext filename))" "lower (snd (splitext filename))"]
    by (simp add: sanitize_filename_eq)
qed

theorem sanitize_filename_charset_witness:
  "list_all is_ascii ''Jane Doe <jane@ex.com>'' \<and>
   list_all is_ascii ''Report (Final).PDF'' \<and>
   list_all allowed_char ''20240101_120000'' \<and>
   list_all allowed_char (snd (splitext ''Report (Final).PDF'')) \<and>
   snd (splitext ''Report (Final).PDF'') \<noteq> [] \<and>
   list_all allowed_char
     (sanitize_filename ''Report (Final).PDF'' ''Jane Doe <jane@ex.com>'' ''20240101_120000'') \<and>
   snd (splitext
     (sanitize_filename ''Report (Final).PDF'' ''Jane Doe <jane@ex.com>'' ''20240101_120000''))
     = ''.pdf''"
proof -
  have h1: "\<forall>c\<in>set ''Jane Doe <jane@ex.com>''. is_ascii c" by code_simp
  have h2: "\<forall>c\<in>set ''Report (Final).PDF''. is_ascii c" by code_simp
  have h3: "\<forall>c\<in>set ''20240101_120000''. allowed_char c" by code_simp
  have h4: "\<forall>c\<in>set (snd (splitext ''Report (Final).PDF'')). allowed_char c" by code_simp
  have h5: "snd (splitext ''Report (Final).PDF'') \<noteq> []" by code_simp
  have e: "lower (snd (splitext ''Report (Final).PDF'')) = ''.pdf''" by code_simp
  note t = sanitize_filename_charset
    [of "''Jane Doe <jane@ex.com>''" "''Report (Final).PDF''" "''20240101_120000''"]
  from t h1 h2 h3 h4 have
    "\<forall>c\<in>set (sanitize_filename ''Report (Final).PDF'' ''Jane Doe <jane@ex.com>''
        ''20240101_120000''). allowed_char c"
    by blast
  moreover from t h5 e have
    "snd (splitext (sanitize_filename ''Report (Final).PDF'' ''Jane Doe <jane@ex.com>''
        ''20240101_120000'')) = ''.pdf''"
    by simp
  ultimately show ?thesis using h1 h2 h3 h4 h5 by (simp add: list_all_iff)
qed

text \<open>
  The property as the specification states it fails where the extension has a character outside the set:
  the filename \<open>notes.v2 final\<close> has the extension \<open>.v2 final\<close>, and its space reaches
  the result.
\<close>

theorem sanitize_filename_charset_counterexample:
  "sanitize_filename ''notes.v2 final'' ''Jane Doe <jane@ex.com>'' ''20240101_120000''
     = ''jane_ex_com_20240101_120000_notes.v2 final'' \<and>
   \<not> (\<forall>c\<in>set (sanitize_filename ''notes.v2 final'' ''Jane Doe <jane@ex.com>''
           ''20240101_120000''). allowed_char c)"
  by code_simp

text \<open>
  The two other ways a character outside the set reaches the result: a letter beyond
  ASCII is a word character for \<open>\w\<close> and stays in the stem, and the timestamp is not
  looked at.
\<close>

lemma sanitize_filename_other_characters:
  "sanitize_filename (''caf'' @ [CHR 0xE9] @ ''.txt'') ''Jane Doe <jane@ex.com>''
       ''20240101_120000''
     = ''jane_ex_com_20240101_120000_caf'' @ [CHR 0xE9] @ ''.txt'' \<and>
   \<not> allowed_char (CHR 0xE9) \<and>
   sanitize_filename ''a.txt'' ''Jane Doe <jane@ex.com>'' ''12:00''
     = ''jane_ex_com_12:00_a.txt'' \<and>
   \<not> allowed_char CHR '':''"
  by code_simp

section \<open>Saving attachments: results\<close>

lemma path_stem_cases:
  "path_stem u = u \<or>
   (\<exists>i. i < length u \<and> u ! i = CHR ''.'' \<and> path_stem u = take i u)"
proof (cases "0 < rfind CHR ''.'' u \<and> rfind CHR ''.'' u < int (length u) - 1")
  case False
  then have "path_stem u = u" by (auto simp: path_stem_def Let_def)
  then show ?thesis by blast
next
  case True
  let ?i = "nat (rfind CHR ''.'' u)"
  have "?i < length u" using True by linarith
  moreover have "u ! ?i = CHR ''.''" using True rfind_nth [of "CHR ''.''" u] by simp
  moreover have "path_stem u = take ?i u" using True by (simp add: path_stem_def Let_def)
  ultimately show ?thesis by blast
qed

lemma summary_name_differs: "path_stem u @ ''_summary.txt'' \<noteq> u"
proof
  assume eq: "path_stem u @ ''_summary.txt'' = u"
  from path_stem_cases [of u] show False
  proof
    assume "path_stem u = u"
    with eq show False by simp
  next
    assume "\<exists>i. i < length u \<and> u ! i = CHR ''.'' \<and> path_stem u = take i u"
    then obtain i where i: "i < length u" "u ! i = CHR ''.''" "path_stem u = take i u"
      by blast
    have "take i u @ ''_summary.txt'' = take i u @ drop i u" using eq i by simp
    then have "drop i u = ''_summary.txt''" by (metis same_append_eq)
    moreover have "drop i u = u ! i # drop (Suc i) u" using i(1) by (metis Cons_nth_drop_Suc)
    ultimately show False using i by simp
  qed
qed

lemma process_pdf_keeps:
  "files (process_pdf E k w dir u) (dir @ ''/'' @ u) = files w (dir @ ''/'' @ u)"
  using summary_name_differs [of u] by (simp add: process_pdf_def split: option.splits)

lemma process_pdf_json_log [simp]: "json_log (process_pdf E k w dir u) = json_log w"
  by (simp add: process_pdf_def split: option.splits)

lemma process_pdf_events [simp]: "events (process_pdf E k w dir u) = events w"
  by (simp add: process_pdf_def split: option.splits)

lemma process_pdf_tick [simp]: "tick (process_pdf E k w dir u) = tick w"
  by (simp add: process_pdf_def split: option.splits)

lemma process_attachment_events [simp]:
  "events (fst (process_attachment cfg E w d f s j t)) = events w"
  by (simp add: process_attachment_def Let_def split: write_result.splits)

lemma process_attachment_tick [simp]:
  "tick (fst (process_attachment cfg E w d f s j t)) = tick w + 1"
  by (simp add: process_attachment_def Let_def split: write_result.splits)

lemma process_attachment_saved:
  assumes "process_attachment cfg E w d f s j t = (w', Some path)"
  shows "path = attachments_dir cfg @ ''/'' @ sanitize_filename f s t \<and> files w' path = Some d"
  using assms process_pdf_keeps [of E "tick w" _ "attachments_dir cfg" "sanitize_filename f s t"]
  by (auto simp: process_attachment_def Let_def split: write_result.splits if_splits)

text \<open>
  C8, as the code has it.  When \<open>_process_attachment\<close> returns the path, the file at that
  path holds the payload.  Outside Docker mode exactly one record has been appended to the
  JSON log, and its \<open>file_size\<close> is the length of the payload, that is of the file
  written; in Docker mode the details go to the console only and the log is unchanged.
\<close>

theorem process_attachment_record:
  assumes "process_attachment cfg E w attachment_data filename sender subject timestamp
             = (w', Some path)"
  shows "path = attachments_dir cfg @ ''/'' @ sanitize_filename filename sender timestamp \<and>
         files w' path = Some attachment_data \<and>
         (docker_mode cfg \<longrightarrow> json_log w' = json_log w) \<and>
         (\<not> docker_mode cfg \<longrightarrow>
            (\<exists>r. json_log w' = json_log w @ [r] \<and>
                 file_size r = length attachment_data \<and>
                 file_path r = path \<and>
                 original_filename r = filename \<and>
                 saved_filename r = sanitize_filename filename sender timestamp))"
proof -
  have a: "path = attachments_dir cfg @ ''/'' @ sanitize_filename filename sender timestamp \<and>
         files w' path = Some attachment_data"
    using assms by (rule process_attachment_saved)
  have b: "docker_mode cfg \<longrightarrow> json_log w' = json_log w"
    using assms
    by (auto simp: process_attachment_def Let_def split: write_result.splits if_splits)
  have c: "\<not> docker_mode cfg \<longrightarrow>
            (\<exists>r. json_log w' = json_log w @ [r] \<and>
                 file_size r = length attachment_data \<and>
                 file_path r = path \<and>
                 original_filename r = filename \<and>
                 saved_filename r = sanitize_filename filename sender timestamp)"
    using assms
    by (auto simp: process_attachment_def Let_def split: write_result.splits if_splits)
  show ?thesis using a b c by blast
qed

theorem process_attachment_record_witness:
  "snd (process_attachment local_cfg env_ok world0 ''%PDF-1.4'' ''Report (Final).PDF''
          ''Jane Doe <jane@ex.com>'' ''Report'' ''20240101_120000'')
     = Some ''/data/attachments/jane_ex_com_20240101_120000_Report__Final_.pdf'' \<and>
   files (fst (process_attachment local_cfg env_ok world0 ''%PDF-1.4'' ''Report (Final).PDF''
          ''Jane Doe <jane@ex.com>'' ''Report'' ''20240101_120000''))
       ''/data/attachments/jane_ex_com_20240101_120000_Report__Final_.pdf''
     = Some ''%PDF-1.4'' \<and>
   \<not> docker_mode local_cfg \<and>
   (\<exists>r. json_log (fst (process_attachment local_cfg env_ok world0 ''%PDF-1.4''
               ''Report (Final).PDF'' ''Jane Doe <jane@ex.com>'' ''Report'' ''20240101_120000''))
           = json_log world0 @ [r] \<and>
        file_size r = length ''%PDF-1.4'' \<and>
        file_path r = ''/data/attachments/jane_ex_com_20240101_120000_Report__Final_.pdf'')"
proof -
  let ?res = "process_attachment local_cfg env_ok world0 ''%PDF-1.4'' ''Report (Final).PDF''
                ''Jane Doe <jane@ex.com>'' ''Report'' ''20240101_120000''"
  let ?path = "''/data/attachments/jane_ex_com_20240101_120000_Report__Final_.pdf''"
  have s: "snd ?res = Some ?path" by code_simp
  then have h: "?res = (fst ?res, Some ?path)" by (simp add: prod_eq_iff)
  have nd: "\<not> docker_mode local_cfg" by (simp add: local_cfg_def)
  note t = process_attachment_record [OF h]
  from t have f: "files (fst ?res) ?path = Some ''%PDF-1.4''" by blast
  from t nd have r: "\<exists>r. json_log (fst ?res) = json_log world0 @ [r] \<and>
       file_size r = length ''%PDF-1.4'' \<and> file_path r = ?path"
    by blast
  show ?thesis using s f nd r by blast
qed

text \<open>
  The property as the specification states it fails in Docker mode: the attachment is saved and no record
  is appended.
\<close>

theorem process_attachment_record_counterexample:
  "docker_mode docker_cfg \<and>
   snd (process_attachment docker_cfg env_ok world0 ''%PDF-1.4'' ''Report (Final).PDF''
          ''Jane Doe <jane@ex.com>'' ''Report'' ''20240101_120000'')
     = Some ''/app/attachments/jane_ex_com_20240101_120000_Report__Final_.pdf'' \<and>
   files (fst (process_attachment docker_cfg env_ok world0 ''%PDF-1.4'' ''Report (Final).PDF''
          ''Jane Doe <jane@ex.com>'' ''Report'' ''20240101_120000''))
       ''/app/attachments/jane_ex_com_20240101_120000_Report__Final_.pdf''
     = Some ''%PDF-1.4'' \<and>
   json_log (fst (process_attachment docker_cfg env_ok world0 ''%PDF-1.4''
          ''Report (Final).PDF'' ''Jane Doe <jane@ex.com>'' ''Report'' ''20240101_120000''))
     = []"
  by code_simp

section \<open>Processing messages: results\<close>

lemma process_part_skips:
  "\<not> qualifies p \<Longrightarrow> snd (process_part cfg E i s j t hw p) = snd hw"
  by (auto simp: process_part_def qualifies_def Let_def split: option.splits)

lemma process_part_raises:
  "part_raises p \<Longrightarrow> snd (process_part cfg E i s j t hw p) = snd hw"
  by (auto simp: process_part_def part_raises_def Let_def split: option.splits)

lemma qualifies_reads:
  assumes "qualifies p" and "\<not> part_raises p"
  shows "Disposition \<notin> set (raising p) \<and> Filename \<notin> set (raising p) \<and>
         Payload \<notin> set (raising p)"
  using assms by (auto simp: qualifies_def part_raises_def split: option.splits)

lemma process_part_calls:
  assumes "qualifies p" and "\<not> part_raises p"
  shows "\<exists>d. get_payload p = Some d \<and> d \<noteq> [] \<and>
          process_part cfg E i s j t hw p =
            (True, (fst (process_attachment cfg E (snd hw) d (part_name E p) s j t))
                     \<lparr>events := events (snd hw) @
                        [Attempt i (part_name E p)
                           (snd (process_attachment cfg E (snd hw) d (part_name E p) s j t))]\<rparr>)"
  using assms(1) qualifies_reads [OF assms]
  by (auto simp: process_part_def qualifies_def part_name_def Let_def case_prod_beta
           split: option.splits)

lemma process_part_flag:
  "\<not> part_raises p \<Longrightarrow>
   fst (process_part cfg E i s j t hw p)
     = (fst hw \<or> get_content_disposition p = Some ''attachment'')"
  by (cases hw)
     (auto simp: process_part_def part_raises_def Let_def case_prod_beta split: option.splits)

lemma process_part_events:
  assumes "\<not> part_raises p"
  shows "\<exists>atts. events (snd (process_part cfg E i s j t hw p)) = events (snd hw) @ atts \<and>
          list_all2 (\<lambda>p ev. is_attempt_for i (part_name E p) ev) (filter qualifies [p]) atts"
proof (cases "qualifies p")
  case False
  then show ?thesis by (simp add: process_part_skips)
next
  case True
  from process_part_calls [OF True assms, of cfg E i s j t hw]
  obtain d where "process_part cfg E i s j t hw p =
            (True, (fst (process_attachment cfg E (snd hw) d (part_name E p) s j t))
                     \<lparr>events := events (snd hw) @
                        [Attempt i (part_name E p)
                           (snd (process_attachment cfg E (snd hw) d (part_name E p) s j t))]\<rparr>)"
    by blast
  then show ?thesis using True by (simp add: is_attempt_for_def)
qed

lemma reached_Cons:
  "reached (p # ps) = (if part_raises p then [] else p # reached ps)"
  by (simp add: reached_def)

lemma process_parts_events:
  "\<exists>atts. events (snd (snd (process_parts cfg E i s j t hw ps))) = events (snd hw) @ atts \<and>
          list_all2 (\<lambda>p ev. is_attempt_for i (part_name E p) ev)
            (filter qualifies (reached ps)) atts"
proof (induction ps arbitrary: hw)
  case Nil
  show ?case by (simp add: reached_def)
next
  case (Cons p ps)
  show ?case
  proof (cases "part_raises p")
    case True
    then show ?thesis by (simp add: reached_Cons process_part_raises)
  next
    case False
    let ?hw = "process_part cfg E i s j t hw p"
    obtain a1 where a1: "events (snd ?hw) = events (snd hw) @ a1"
      "list_all2 (\<lambda>p ev. is_attempt_for i (part_name E p) ev) (filter qualifies [p]) a1"
      using process_part_events [OF False, of cfg E i s j t hw] by blast
    obtain a2 where a2:
      "events (snd (snd (process_parts cfg E i s j t ?hw ps))) = events (snd ?hw) @ a2"
      "list_all2 (\<lambda>p ev. is_attempt_for i (part_name E p) ev) (filter qualifies (reached ps)) a2"
      using Cons.IH [of ?hw] by blast
    have "filter qualifies (reached (p # ps)) = filter qualifies [p] @ filter qualifies (reached ps)"
      using False by (simp add: reached_Cons)
    then have "list_all2 (\<lambda>p ev. is_attempt_for i (part_name E p) ev)
        (filter qualifies (reached (p # ps))) (a1 @ a2)"
      using a1(2) a2(2) by (simp only: list_all2_appendI)
    moreover have "events (snd (snd (process_parts cfg E i s j t hw (p # ps))))
        = events (snd hw) @ a1 @ a2"
      using a1(1) a2(1) False by simp
    ultimately show ?thesis by blast
  qed
qed

lemma process_parts_raised:
  "fst (process_parts cfg E i s j t hw ps) = list_ex part_raises ps"
  by (induction ps arbitrary: hw) simp_all

lemma process_parts_flag:
  "\<not> list_ex part_raises ps \<Longrightarrow>
   fst (snd (process_parts cfg E i s j t hw ps)) = (fst hw \<or> has_attachment_part ps)"
proof (induction ps arbitrary: hw)
  case Nil
  show ?case by (simp add: has_attachment_part_def)
next
  case (Cons p ps)
  then have np: "\<not> part_raises p" and nps: "\<not> list_ex part_raises ps" by simp_all
  show ?case using Cons.IH [OF nps, of "process_part cfg E i s j t hw p"] np
    by (auto simp: process_part_flag has_attachment_part_def)
qed

lemma process_email_events:
  "\<exists>tail. events (process_email cfg E w i)
            = events w @ Fetch i (mail_fetch E (tick w) i) # tail \<and>
          processed E i (mail_fetch E (tick w) i) tail"
proof (cases "mail_fetch E (tick w) i")
  case None
  then show ?thesis by (simp add: process_email_def processed_def)
next
  case (Some msg)
  let ?w0 = "w\<lparr>events := events w @ [Fetch i (Some msg)], tick := tick w + 1\<rparr>"
  let ?s = "decode_header_value E (msg_from msg)"
  let ?j = "decode_header_value E (msg_subject msg)"
  let ?t = "now_stamp E (tick w)"
  let ?r = "process_parts cfg E i ?s ?j ?t (False, ?w0) (walk msg)"
  have rp: "run_parts cfg E w i msg (walk msg) = ?r" by (simp add: run_parts_def Let_def)
  obtain atts where atts: "events (snd (snd ?r)) = events (snd (False, ?w0)) @ atts"
    "list_all2 (\<lambda>p ev. is_attempt_for i (part_name E p) ev)
       (filter qualifies (reached (walk msg))) atts"
    using process_parts_events [of cfg E i ?s ?j ?t "(False, ?w0)" "walk msg"] by blast
  have raised: "fst ?r = list_ex part_raises (walk msg)" by (rule process_parts_raised)
  have flag: "\<not> list_ex part_raises (walk msg) \<Longrightarrow> fst (snd ?r) = has_attachment_part (walk msg)"
    using process_parts_flag [of "walk msg" cfg E i ?s ?j ?t "(False, ?w0)"] by simp
  have len: "length atts = length (filter qualifies (reached (walk msg)))"
    using atts(2) by (simp add: list_all2_lengthD)
  let ?extra = "if list_ex part_raises (walk msg) then [Failed i]
                else if has_attachment_part (walk msg) then [] else [NoAttachments i]"
  have ev: "events (process_email cfg E w i) = events w @ Fetch i (Some msg) # (atts @ ?extra)"
    using Some atts(1) raised flag rp
    by (simp add: process_email_def Let_def case_prod_beta)
  have "processed E i (Some msg) (atts @ ?extra)"
    using atts(2) len by (simp add: processed_def Let_def)
  then show ?thesis using ev Some by auto
qed


lemma processed_attempts:
  assumes "processed E i res tail" and "ev \<in> set tail"
  shows "(\<exists>f r. ev = Attempt i f r) \<or> ev = Failed i \<or> ev = NoAttachments i"
proof (cases res)
  case None
  then show ?thesis using assms by (simp add: processed_def)
next
  case (Some msg)
  let ?n = "length (filter qualifies (reached (walk msg)))"
  have a: "list_all2 (\<lambda>p ev. is_attempt_for i (part_name E p) ev)
             (filter qualifies (reached (walk msg))) (take ?n tail)"
    and d: "drop ?n tail = (if list_ex part_raises (walk msg) then [Failed i]
                            else if has_attachment_part (walk msg) then []
                            else [NoAttachments i])"
    using assms(1) Some by (simp_all add: processed_def Let_def)
  have "ev \<in> set (take ?n tail) \<or> ev \<in> set (drop ?n tail)"
    using assms(2) append_take_drop_id [of ?n tail] by (metis Un_iff set_append)
  then show ?thesis
  proof
    assume "ev \<in> set (take ?n tail)"
    then obtain q where "is_attempt_for i (part_name E q) ev"
      using a by (auto simp: list_all2_conv_all_nth in_set_conv_nth)
    then show ?thesis by (cases ev) (simp_all add: is_attempt_for_def)
  next
    assume "ev \<in> set (drop ?n tail)"
    then show ?thesis using d by (simp split: if_splits)
  qed
qed

lemma processed_no_store: "processed E i res tail \<Longrightarrow> CmdStore k \<notin> set tail"
  using processed_attempts [of E i res tail "CmdStore k"] by auto

lemma processed_no_fetch: "processed E i res tail \<Longrightarrow> Fetch k r \<notin> set tail"
  using processed_attempts [of E i res tail "Fetch k r"] by auto

lemma split_after:
  assumes "xs @ N = pre @ d # post" and "d \<notin> set xs"
  shows "\<exists>pre'. pre = xs @ pre' \<and> N = pre' @ d # post"
proof -
  from assms(1) obtain us where
    "(xs = pre @ us \<and> us @ N = d # post) \<or> (xs @ us = pre \<and> N = us @ d # post)"
    by (auto simp: append_eq_append_conv2)
  then show ?thesis
  proof
    assume a: "xs = pre @ us \<and> us @ N = d # post"
    show ?thesis
    proof (cases us)
      case Nil
      then show ?thesis using a by simp
    next
      case (Cons u us')
      then have "d \<in> set xs" using a by simp
      then show ?thesis using assms(2) by simp
    qed
  next
    assume "xs @ us = pre \<and> N = us @ d # post"
    then show ?thesis by blast
  qed
qed

lemma process_unseen_grows: "\<exists>new. events (process_unseen cfg E w ids) = events w @ new"
proof (induction ids arbitrary: w)
  case Nil
  show ?case by simp
next
  case (Cons e rest)
  obtain tail where t: "events (process_email cfg E w e)
      = events w @ Fetch e (mail_fetch E (tick w) e) # tail"
    using process_email_events [of cfg E w e] by blast
  let ?w1 = "process_email cfg E w e"
  let ?w2 = "?w1\<lparr>events := events ?w1 @ [CmdStore e], tick := tick ?w1 + 1\<rparr>"
  show ?case
  proof (cases "mail_store E (tick ?w1) e")
    case False
    then show ?thesis using t by (simp add: Let_def)
  next
    case True
    obtain new where "events (process_unseen cfg E ?w2 rest) = events ?w2 @ new"
      using Cons.IH [of ?w2] by blast
    then show ?thesis using True t by (simp add: Let_def)
  qed
qed

lemma process_unseen_Cons_events:
  "\<exists>tail new w2.
     events (process_unseen cfg E w (e # rest))
       = events w @ (Fetch e (mail_fetch E (tick w) e) # tail) @ CmdStore e # new \<and>
     processed E e (mail_fetch E (tick w) e) tail \<and>
     (new = [] \<or> events (process_unseen cfg E w2 rest) = events w2 @ new)"
proof -
  obtain tail where t: "events (process_email cfg E w e)
      = events w @ Fetch e (mail_fetch E (tick w) e) # tail"
      "processed E e (mail_fetch E (tick w) e) tail"
    using process_email_events [of cfg E w e] by blast
  let ?w1 = "process_email cfg E w e"
  let ?w2 = "?w1\<lparr>events := events ?w1 @ [CmdStore e], tick := tick ?w1 + 1\<rparr>"
  show ?thesis
  proof (cases "mail_store E (tick ?w1) e")
    case False
    then have "events (process_unseen cfg E w (e # rest))
       = events w @ (Fetch e (mail_fetch E (tick w) e) # tail) @ CmdStore e # []"
      using t(1) by (simp add: Let_def)
    then show ?thesis using t(2) by blast
  next
    case True
    obtain new where n: "events (process_unseen cfg E ?w2 rest) = events ?w2 @ new"
      using process_unseen_grows [of cfg E ?w2 rest] by blast
    have "events (process_unseen cfg E w (e # rest))
       = events w @ (Fetch e (mail_fetch E (tick w) e) # tail) @ CmdStore e # new"
      using True t(1) n by (simp add: Let_def)
    then show ?thesis using t(2) n by blast
  qed
qed

lemma split_at_store:
  assumes "B @ c # N = pre @ d # post" and "d \<notin> set B"
  shows "(pre = B \<and> d = c \<and> post = N) \<or> (\<exists>pre'. pre = B @ c # pre' \<and> N = pre' @ d # post)"
proof -
  from assms(1) obtain us where
    "(B = pre @ us \<and> us @ c # N = d # post) \<or> (B @ us = pre \<and> c # N = us @ d # post)"
    by (auto simp: append_eq_append_conv2)
  then show ?thesis
  proof
    assume a: "B = pre @ us \<and> us @ c # N = d # post"
    show ?thesis
    proof (cases us)
      case Nil
      then show ?thesis using a by simp
    next
      case (Cons u us')
      then have "d \<in> set B" using a by simp
      then show ?thesis using assms(2) by simp
    qed
  next
    assume a: "B @ us = pre \<and> c # N = us @ d # post"
    show ?thesis
    proof (cases us)
      case Nil
      then show ?thesis using a by simp
    next
      case (Cons u us')
      then show ?thesis using a by auto
    qed
  qed
qed


lemma store_after_fetch:
  assumes "events (process_unseen cfg E w ids) = events w @ pre @ CmdStore i # post"
  shows "\<exists>before res tail. pre = before @ Fetch i res # tail \<and> processed E i res tail"
  using assms
proof (induction ids arbitrary: w pre)
  case Nil
  then show ?case by simp
next
  case (Cons e rest)
  obtain tail new w2 where
    ev: "events (process_unseen cfg E w (e # rest))
       = events w @ (Fetch e (mail_fetch E (tick w) e) # tail) @ CmdStore e # new"
    and pr: "processed E e (mail_fetch E (tick w) e) tail"
    and nw: "new = [] \<or> events (process_unseen cfg E w2 rest) = events w2 @ new"
    using process_unseen_Cons_events [of cfg E w e rest] by blast
  let ?B = "Fetch e (mail_fetch E (tick w) e) # tail"
  have eq: "?B @ CmdStore e # new = pre @ CmdStore i # post"
    using ev Cons.prems by simp
  have nost: "CmdStore i \<notin> set ?B" using processed_no_store [OF pr] by simp
  from split_at_store [OF eq nost] show ?case
  proof
    assume "pre = ?B \<and> CmdStore i = CmdStore e \<and> post = new"
    then have "pre = [] @ Fetch i (mail_fetch E (tick w) e) # tail"
      and "processed E i (mail_fetch E (tick w) e) tail"
      using pr by simp_all
    then show ?thesis by blast
  next
    assume "\<exists>pre'. pre = ?B @ CmdStore e # pre' \<and> new = pre' @ CmdStore i # post"
    then obtain pre' where p: "pre = ?B @ CmdStore e # pre'" "new = pre' @ CmdStore i # post"
      by blast
    then have "new \<noteq> []" by simp
    then have "events (process_unseen cfg E w2 rest) = events w2 @ pre' @ CmdStore i # post"
      using nw p(2) by simp
    then obtain before res tail' where
      b: "pre' = before @ Fetch i res # tail'" "processed E i res tail'"
      using Cons.IH [of w2 pre'] by blast
    have "pre = (?B @ CmdStore e # before) @ Fetch i res # tail'" using p(1) b(1) by simp
    then show ?thesis using b(2) by blast
  qed
qed


lemma store_after_every_fetch:
  assumes "events (process_unseen cfg E w ids) = events w @ pre @ Fetch i res # post"
  shows "\<exists>tail post'. post = tail @ CmdStore i # post' \<and> processed E i res tail"
  using assms
proof (induction ids arbitrary: w pre)
  case Nil
  then show ?case by simp
next
  case (Cons e rest)
  obtain tail new w2 where
    ev: "events (process_unseen cfg E w (e # rest))
       = events w @ (Fetch e (mail_fetch E (tick w) e) # tail) @ CmdStore e # new"
    and pr: "processed E e (mail_fetch E (tick w) e) tail"
    and nw: "new = [] \<or> events (process_unseen cfg E w2 rest) = events w2 @ new"
    using process_unseen_Cons_events [of cfg E w e rest] by blast
  have eq: "Fetch e (mail_fetch E (tick w) e) # (tail @ [CmdStore e]) @ new
              = pre @ Fetch i res # post"
    using ev Cons.prems by simp
  show ?case
  proof (cases pre)
    case Nil
    have "Fetch e (mail_fetch E (tick w) e) # ((tail @ [CmdStore e]) @ new)
            = Fetch i res # post"
      using eq unfolding Nil by (simp only: append_Nil)
    then have c1: "Fetch e (mail_fetch E (tick w) e) = Fetch i res"
      and c2: "(tail @ [CmdStore e]) @ new = post"
      by blast+
    from c1 have c3: "e = i" and c4: "mail_fetch E (tick w) e = res" by blast+
    have p1: "post = tail @ CmdStore i # new" using c2 c3 by simp
    have p2: "processed E i res tail" using pr c3 c4 by simp
    show ?thesis using p1 p2 by blast
  next
    case (Cons x pre1)
    then have eq1: "(tail @ [CmdStore e]) @ new = pre1 @ Fetch i res # post"
      using eq by simp
    have nf: "Fetch i res \<notin> set (tail @ [CmdStore e])"
      using processed_no_fetch [OF pr] by simp
    obtain pre' where p: "pre1 = (tail @ [CmdStore e]) @ pre'"
      "new = pre' @ Fetch i res # post"
      using split_after [OF eq1 nf] by blast
    have "new \<noteq> []" using p(2) by simp
    then have "events (process_unseen cfg E w2 rest) = events w2 @ pre' @ Fetch i res # post"
      using nw p(2) by simp
    then show ?thesis by (rule Cons.IH)
  qed
qed

text \<open>
  C1, as the code has it.  In every run of the loop over the unseen messages, the store
  command for a message comes right after the events of \<open>_process_email\<close> for that
  message: its fetch, then one call of \<open>_process_attachment\<close> for each qualifying part
  that the loop over the parts reaches, in order, then the log line of the handler when
  the fetch or a part raised.  Each call has returned by then, with the path when the
  file was written or with \<open>None\<close> when the write failed and was logged.  And the
  other way round: whatever a fetch gave and whatever the calls returned, the events of
  the message are followed by its store command.
\<close>

theorem store_follows_processing:
  "(events (process_unseen cfg E w ids) = events w @ pre @ CmdStore i # post \<longrightarrow>
      (\<exists>before res tail. pre = before @ Fetch i res # tail \<and> processed E i res tail)) \<and>
   (events (process_unseen cfg E w ids) = events w @ pre' @ Fetch i' res' # post' \<longrightarrow>
      (\<exists>tail rest. post' = tail @ CmdStore i' # rest \<and> processed E i' res' tail))"
  using store_after_fetch [of cfg E w ids pre i post]
    store_after_every_fetch [of cfg E w ids pre' i' res' post']
  by blast

theorem store_follows_processing_witness:
  "events (process_unseen local_cfg env_ok world0 [''1'', ''4''])
     = events world0 @
       [Fetch ''1'' (Some msg_report),
        Attempt ''1'' ''Report (Final).PDF''
          (Some ''/data/attachments/jane_ex_com_20240101_120000_Report__Final_.pdf''),
        CmdStore ''1'', Fetch ''4'' (Some msg_broken),
        Attempt ''4'' ''Report (Final).PDF''
          (Some ''/data/attachments/jane_ex_com_20240101_120000_Report__Final_.pdf''),
        Failed ''4''] @ CmdStore ''4'' # [] \<and>
   (\<exists>before res tail.
      [Fetch ''1'' (Some msg_report),
       Attempt ''1'' ''Report (Final).PDF''
         (Some ''/data/attachments/jane_ex_com_20240101_120000_Report__Final_.pdf''),
       CmdStore ''1'', Fetch ''4'' (Some msg_broken),
       Attempt ''4'' ''Report (Final).PDF''
         (Some ''/data/attachments/jane_ex_com_20240101_120000_Report__Final_.pdf''),
       Failed ''4''] = before @ Fetch ''4'' res # tail \<and>
      processed env_ok ''4'' res tail) \<and>
   (\<exists>tail rest.
      [Attempt ''4'' ''Report (Final).PDF''
         (Some ''/data/attachments/jane_ex_com_20240101_120000_Report__Final_.pdf''),
       Failed ''4'', CmdStore ''4''] = tail @ CmdStore ''4'' # rest \<and>
      processed env_ok ''4'' (Some msg_broken) tail)"
proof -
  let ?P = "''/data/attachments/jane_ex_com_20240101_120000_Report__Final_.pdf''"
  let ?pre = "[Fetch ''1'' (Some msg_report), Attempt ''1'' ''Report (Final).PDF'' (Some ?P),
               CmdStore ''1'', Fetch ''4'' (Some msg_broken),
               Attempt ''4'' ''Report (Final).PDF'' (Some ?P), Failed ''4'']"
  let ?pre' = "[Fetch ''1'' (Some msg_report), Attempt ''1'' ''Report (Final).PDF'' (Some ?P),
                CmdStore ''1'']"
  let ?post' = "[Attempt ''4'' ''Report (Final).PDF'' (Some ?P), Failed ''4'', CmdStore ''4'']"
  have ev: "events (process_unseen local_cfg env_ok world0 [''1'', ''4''])
              = [Fetch ''1'' (Some msg_report), Attempt ''1'' ''Report (Final).PDF'' (Some ?P),
                 CmdStore ''1'', Fetch ''4'' (Some msg_broken),
                 Attempt ''4'' ''Report (Final).PDF'' (Some ?P), Failed ''4'', CmdStore ''4'']"
    by code_simp
  have w0: "events world0 = []" by (simp add: world0_def)
  have h1: "events (process_unseen local_cfg env_ok world0 [''1'', ''4''])
              = events world0 @ ?pre @ CmdStore ''4'' # []"
    unfolding ev w0 by simp
  have h2: "events (process_unseen local_cfg env_ok world0 [''1'', ''4''])
              = events world0 @ ?pre' @ Fetch ''4'' (Some msg_broken) # ?post'"
    unfolding ev w0 by simp
  note t = store_follows_processing
    [where cfg = local_cfg and E = env_ok and w = world0 and ids = "[''1'', ''4'']"
       and pre = ?pre and i = "''4''" and post = "[]" and pre' = ?pre' and i' = "''4''"
       and res' = "Some msg_broken" and post' = ?post']
  from t h1 have k1: "\<exists>before res tail. ?pre = before @ Fetch ''4'' res # tail \<and>
      processed env_ok ''4'' res tail"
    by blast
  from t h2 have k2: "\<exists>tail rest. ?post' = tail @ CmdStore ''4'' # rest \<and>
      processed env_ok ''4'' (Some msg_broken) tail"
    by blast
  show ?thesis using h1 k1 k2 by blast
qed

text \<open>
  The property as the specification states it fails when a write fails: the failure is
  caught and logged in \<open>_process_attachment\<close>, and the loop sends the store command all
  the same.  Here the disk refuses the write of the only attachment of message 1; no
  file exists afterwards and the store command has been sent.
\<close>

theorem store_after_failed_write_counterexample:
  "qualifies report_part \<and> walk msg_report = [body_part, report_part] \<and>
   events (process_unseen local_cfg env_disk_full world0 [''1''])
     = [Fetch ''1'' (Some msg_report), Attempt ''1'' ''Report (Final).PDF'' None,
        CmdStore ''1''] \<and>
   files (process_unseen local_cfg env_disk_full world0 [''1''])
     ''/data/attachments/jane_ex_com_20240101_120000_Report__Final_.pdf'' = None"
  by code_simp

lemma process_parts_skip:
  "\<forall>p\<in>set ps. \<not> qualifies p \<Longrightarrow>
   snd (snd (process_parts cfg E i s j t hw ps)) = snd hw"
  by (induction ps arbitrary: hw) (simp_all add: process_part_skips)

lemma process_email_skip:
  assumes "mail_fetch E (tick w) i = Some msg" and "\<forall>p\<in>set (walk msg). \<not> qualifies p"
  shows "files (process_email cfg E w i) = files w \<and>
         json_log (process_email cfg E w i) = json_log w"
  using assms(1) process_parts_skip [OF assms(2)]
  by (simp add: process_email_def run_parts_def Let_def case_prod_beta)

lemma head_is_stored: "CmdStore e \<in> set (events (process_unseen cfg E w (e # rest)))"
  using process_unseen_Cons_events [of cfg E w e rest] by auto

text \<open>
  C7.  The loop body changes the files, the JSON log or the events only for a part whose
  content-disposition is \<open>attachment\<close>, whose filename is present and non-empty and whose
  decoded payload is non-empty.  A part without a filename leaves the state as it was,
  and so does a part at which a call raises; and for a message whose parts have no
  filename, no file is written, no record is appended, and the store command is sent.
\<close>

theorem unnamed_part_ignored:
  "((files (snd (process_part cfg E i s j t hw p)) \<noteq> files (snd hw) \<or>
     json_log (snd (process_part cfg E i s j t hw p)) \<noteq> json_log (snd hw) \<or>
     events (snd (process_part cfg E i s j t hw p)) \<noteq> events (snd hw))
      \<longrightarrow> get_content_disposition p = Some ''attachment'' \<and>
          (\<exists>f. get_filename p = Some f \<and> f \<noteq> []) \<and>
          (\<exists>d. get_payload p = Some d \<and> d \<noteq> [])) \<and>
   (get_filename p = None \<longrightarrow> snd (process_part cfg E i s j t hw p) = snd hw) \<and>
   (part_raises p \<longrightarrow> snd (process_part cfg E i s j t hw p) = snd hw) \<and>
   (mail_fetch E (tick w) i = Some msg \<and> (\<forall>p\<in>set (walk msg). get_filename p = None)
      \<longrightarrow> files (process_unseen cfg E w [i]) = files w \<and>
          json_log (process_unseen cfg E w [i]) = json_log w \<and>
          CmdStore i \<in> set (events (process_unseen cfg E w [i])))"
proof (intro conjI impI)
  assume ch: "files (snd (process_part cfg E i s j t hw p)) \<noteq> files (snd hw) \<or>
     json_log (snd (process_part cfg E i s j t hw p)) \<noteq> json_log (snd hw) \<or>
     events (snd (process_part cfg E i s j t hw p)) \<noteq> events (snd hw)"
  have q: "qualifies p"
  proof (rule ccontr)
    assume "\<not> qualifies p"
    then have "snd (process_part cfg E i s j t hw p) = snd hw" by (rule process_part_skips)
    then show False using ch by simp
  qed
  show "get_content_disposition p = Some ''attachment''"
    using q by (simp add: qualifies_def)
  show "\<exists>f. get_filename p = Some f \<and> f \<noteq> []"
    using q by (auto simp: qualifies_def split: option.splits)
  show "\<exists>d. get_payload p = Some d \<and> d \<noteq> []"
    using q by (auto simp: qualifies_def split: option.splits)
next
  assume "get_filename p = None"
  then have "\<not> qualifies p" by (simp add: qualifies_def)
  then show "snd (process_part cfg E i s j t hw p) = snd hw" by (rule process_part_skips)
next
  assume "part_raises p"
  then show "snd (process_part cfg E i s j t hw p) = snd hw" by (rule process_part_raises)
next
  assume a: "mail_fetch E (tick w) i = Some msg \<and> (\<forall>p\<in>set (walk msg). get_filename p = None)"
  then have nq: "\<forall>p\<in>set (walk msg). \<not> qualifies p" by (simp add: qualifies_def)
  have k: "files (process_email cfg E w i) = files w \<and>
           json_log (process_email cfg E w i) = json_log w"
    using a nq process_email_skip by blast
  show "files (process_unseen cfg E w [i]) = files w" using k by (simp add: Let_def)
  show "json_log (process_unseen cfg E w [i]) = json_log w" using k by (simp add: Let_def)
  show "CmdStore i \<in> set (events (process_unseen cfg E w [i]))" by (rule head_is_stored)
qed

theorem unnamed_part_ignored_witness:
  "get_filename nameless_part = None \<and>
   snd (process_part local_cfg env_ok ''2'' ''s'' ''j'' ''t'' (False, world0) nameless_part)
     = world0 \<and>
   part_raises broken_part \<and>
   snd (process_part local_cfg env_ok ''4'' ''s'' ''j'' ''t'' (False, world0) broken_part)
     = world0 \<and>
   mail_fetch env_ok (tick world0) ''2'' = Some msg_nameless \<and>
   list_all (\<lambda>p. get_filename p = None) (walk msg_nameless) \<and>
   files (process_unseen local_cfg env_ok world0 [''2'']) = files world0 \<and>
   json_log (process_unseen local_cfg env_ok world0 [''2'']) = json_log world0 \<and>
   CmdStore ''2'' \<in> set (events (process_unseen local_cfg env_ok world0 [''2''])) \<and>
   events (snd (process_part local_cfg env_ok ''1'' ''s'' ''j'' ''t'' (False, world0) report_part))
     \<noteq> events (snd (False, world0)) \<and>
   get_content_disposition report_part = Some ''attachment'' \<and>
   (\<exists>f. get_filename report_part = Some f \<and> f \<noteq> []) \<and>
   (\<exists>d. get_payload report_part = Some d \<and> d \<noteq> [])"
proof -
  have n: "get_filename nameless_part = None" by (simp add: nameless_part_def)
  have b: "part_raises broken_part" by code_simp
  have f: "mail_fetch env_ok (tick world0) ''2'' = Some msg_nameless" by code_simp
  have a: "\<forall>p\<in>set (walk msg_nameless). get_filename p = None" by code_simp
  have c: "events (snd (process_part local_cfg env_ok ''1'' ''s'' ''j'' ''t'' (False, world0)
              report_part)) \<noteq> events (snd (False, world0))"
    by code_simp
  note t1 = unnamed_part_ignored
    [where cfg = local_cfg and E = env_ok and i = "''2''" and s = "''s''" and j = "''j''"
       and t = "''t''" and hw = "(False, world0)" and p = nameless_part and w = world0
       and msg = msg_nameless]
  note t2 = unnamed_part_ignored
    [where cfg = local_cfg and E = env_ok and i = "''1''" and s = "''s''" and j = "''j''"
       and t = "''t''" and hw = "(False, world0)" and p = report_part and w = world0
       and msg = msg_nameless]
  note t3 = unnamed_part_ignored
    [where cfg = local_cfg and E = env_ok and i = "''4''" and s = "''s''" and j = "''j''"
       and t = "''t''" and hw = "(False, world0)" and p = broken_part and w = world0
       and msg = msg_nameless]
  from t1 n have k1:
    "snd (process_part local_cfg env_ok ''2'' ''s'' ''j'' ''t'' (False, world0) nameless_part)
       = world0"
    by simp
  from t1 f a have k2:
    "files (process_unseen local_cfg env_ok world0 [''2'']) = files world0 \<and>
     json_log (process_unseen local_cfg env_ok world0 [''2'']) = json_log world0 \<and>
     CmdStore ''2'' \<in> set (events (process_unseen local_cfg env_ok world0 [''2'']))"
    by blast
  from t2 c have k3:
    "get_content_disposition report_part = Some ''attachment'' \<and>
     (\<exists>f. get_filename report_part = Some f \<and> f \<noteq> []) \<and>
     (\<exists>d. get_payload report_part = Some d \<and> d \<noteq> [])"
    by blast
  from t3 b have k4:
    "snd (process_part local_cfg env_ok ''4'' ''s'' ''j'' ''t'' (False, world0) broken_part)
       = world0"
    by simp
  show ?thesis using n b f a c k1 k2 k3 k4 by (simp add: list_all_iff)
qed



lemma process_parts_single:
  "\<not> part_raises p \<Longrightarrow>
   process_parts cfg E i s j t hw [p] = (False, process_part cfg E i s j t hw p)"
  by simp




text \<open>
  Two calls with the same filename, sender and timestamp, in whatever states: when both
  return a path it is the same path, and after the second call the file holds the second
  payload.
\<close>

lemma same_arguments_same_path:
  assumes "process_attachment cfg E w1 d1 f s j t = (w1', Some path1)"
    and "process_attachment cfg E w2 d2 f s j t = (w2', Some path2)"
  shows "path1 = path2 \<and> files w1' path1 = Some d1 \<and> files w2' path1 = Some d2"
  using process_attachment_saved [OF assms(1)] process_attachment_saved [OF assms(2)]
  by metis




section \<open>The monitor: results\<close>

lemma loop_head_alive: "running m \<Longrightarrow> running (loop_head m) \<and> \<not> is_exited (loop_head m) \<and> pc (loop_head m) \<noteq> StartConnect"
  by (simp add: loop_head_def is_exited_def)

lemma inner_head_alive: "running m \<Longrightarrow> running (inner_head m) \<and> \<not> is_exited (inner_head m) \<and> pc (inner_head m) \<noteq> StartConnect"
  by (simp add: inner_head_def is_exited_def)

lemma running_emit [simp]: "running (emit a m) = running m"
  by (simp add: emit_def)

lemma returns_alive:
  assumes "running m" and "\<not> is_exited m" and "pc m = StartConnect \<longrightarrow> r \<noteq> Raise"
  shows "running (returns L m t r) \<and> \<not> is_exited (returns L m t r) \<and>
         pc (returns L m t r) \<noteq> StartConnect"
  using assms loop_head_alive inner_head_alive
  by (cases "pc m"; cases r)
     (auto simp: returns_def is_exited_def Let_def)

lemma run_alive:
  assumes "\<forall>ti\<in>set ins. \<exists>r. snd ti = Returns r"
    and "running m" and "\<not> is_exited m" and "pc m \<noteq> StartConnect"
  shows "running (run L m ins) \<and> \<not> is_exited (run L m ins)"
  using assms
proof (induction ins arbitrary: m)
  case Nil
  then show ?case by (simp add: run_def)
next
  case (Cons ti ins)
  obtain r where r: "snd ti = Returns r" using Cons.prems(1) by auto
  have st: "step L m ti = returns L m (fst ti) r" using r by (simp add: step_def)
  have "running (step L m ti) \<and> \<not> is_exited (step L m ti) \<and> pc (step L m ti) \<noteq> StartConnect"
    using returns_alive [of m r L "fst ti"] Cons.prems st by simp
  moreover have "\<forall>ti\<in>set ins. \<exists>r. snd ti = Returns r" using Cons.prems(1) by simp
  ultimately have "running (run L (step L m ti) ins) \<and> \<not> is_exited (run L (step L m ti) ins)"
    using Cons.IH [of "step L m ti"] by blast
  then show ?case by (simp add: run_def)
qed

lemma connect_retry:
  assumes "running m" and "\<not> mail m" and "pc m = Connect \<or> pc m = OuterConnect"
  shows "pc (step L (step L m (t, Returns Raise)) (t', Returns r)) = Connect"
  using assms
  by (auto simp: step_def returns_def loop_head_def emit_def)

text \<open>
  C2, as the code has it.  Once the connection made by \<open>start\<close> has succeeded, no
  operation that returns or raises ends the monitor: after any sequence of outcomes
  without a signal it is still running.  A connection that fails inside the loop, at the
  loop head or in the fallback handler, is followed by a sleep and a new attempt.  The
  first connection is outside this: when it fails, \<open>start\<close> logs the failure and returns.
\<close>

theorem only_signals_end_monitor:
  "((\<forall>ti\<in>set ins. \<exists>r. snd ti = Returns r) \<longrightarrow>
      running (run L initial ((t0, Returns (Ret x)) # ins)) \<and>
      \<not> is_exited (run L initial ((t0, Returns (Ret x)) # ins))) \<and>
   (running m \<and> \<not> mail m \<and> (pc m = Connect \<or> pc m = OuterConnect) \<longrightarrow>
      \<not> is_exited (step L m (t, Returns Raise)) \<and>
      pc (step L (step L m (t, Returns Raise)) (t', Returns r)) = Connect)"
proof (intro conjI impI)
  assume a: "\<forall>ti\<in>set ins. \<exists>r. snd ti = Returns r"
  let ?m1 = "step L initial (t0, Returns (Ret x))"
  have m1: "running ?m1 \<and> \<not> is_exited ?m1 \<and> pc ?m1 \<noteq> StartConnect"
    by (simp add: step_def returns_def initial_def emit_def is_exited_def)
  have "running (run L ?m1 ins) \<and> \<not> is_exited (run L ?m1 ins)"
    using run_alive [OF a] m1 by blast
  then show "running (run L initial ((t0, Returns (Ret x)) # ins))"
    and "\<not> is_exited (run L initial ((t0, Returns (Ret x)) # ins))"
    by (simp_all add: run_def)
next
  assume b: "running m \<and> \<not> mail m \<and> (pc m = Connect \<or> pc m = OuterConnect)"
  then show "\<not> is_exited (step L m (t, Returns Raise))"
    by (auto simp: step_def returns_def emit_def is_exited_def)
  show "pc (step L (step L m (t, Returns Raise)) (t', Returns r)) = Connect"
    using b connect_retry by blast
qed

theorem only_signals_end_monitor_witness:
  "list_all (\<lambda>ti. snd ti \<noteq> Signal 2 \<and> snd ti \<noteq> Signal 15) outage \<and>
   running (run lib0 initial ((0, Returns (Ret [])) # outage)) \<and>
   \<not> is_exited (run lib0 initial ((0, Returns (Ret [])) # outage)) \<and>
   \<not> mail (run lib0 initial ((0, Returns (Ret [])) # outage)) \<and>
   pc (run lib0 initial ((0, Returns (Ret [])) # outage)) = Connect \<and>
   \<not> is_exited (step lib0 (run lib0 initial ((0, Returns (Ret [])) # outage))
                  (15, Returns Raise)) \<and>
   pc (step lib0 (step lib0 (run lib0 initial ((0, Returns (Ret [])) # outage))
                    (15, Returns Raise)) (45, Returns (Ret []))) = Connect"
proof -
  let ?m = "run lib0 initial ((0, Returns (Ret [])) # outage)"
  have a: "\<forall>ti\<in>set outage. \<exists>r. snd ti = Returns r" by (simp add: outage_def)
  have s: "list_all (\<lambda>ti. snd ti \<noteq> Signal 2 \<and> snd ti \<noteq> Signal 15) outage"
    by (simp add: outage_def)
  have p: "pc ?m = Connect" and nm: "\<not> mail ?m"
    by (simp_all add: outage_def run_def step_def returns_def initial_def emit_def
          loop_head_def)
  note t1 = only_signals_end_monitor
    [where ins = outage and L = lib0 and ?t0.0 = 0 and x = "[]" and m = ?m and t = 15
       and t' = 45 and r = "Ret []"]
  from t1 a have alive: "running ?m \<and> \<not> is_exited ?m" by blast
  from t1 alive p nm have retry:
    "\<not> is_exited (step lib0 ?m (15, Returns Raise)) \<and>
     pc (step lib0 (step lib0 ?m (15, Returns Raise)) (45, Returns (Ret []))) = Connect"
    by blast
  show ?thesis using s alive nm p retry by blast
qed

text \<open>
  The property as the specification states it fails at the first connection: no signal has arrived, the
  connection fails, and the process ends.
\<close>

theorem initial_connect_failure_counterexample:
  "pc (run lib0 initial [(0, Returns Raise)]) = Exited InitialConnectFailed \<and>
   is_exited (run lib0 initial [(0, Returns Raise)]) \<and>
   running (run lib0 initial [(0, Returns Raise)]) \<and>
   out (run lib0 initial [(0, Returns Raise)]) = [ConnectGmail, Return]"
  by (simp add: run_def step_def returns_def initial_def emit_def is_exited_def)

text \<open>
  C4, as the code has it.  When a shutdown signal arrives while the monitor waits for a
  push, the handler clears \<open>running\<close>, logs out when there is a connection, and exits the
  process.  It sends no idle-stop command and waits for no acknowledgment.
\<close>

theorem signal_while_idle_exits:
  assumes "pc m = IdleWaiting"
  shows "pc (step L m (t, Signal signum)) = Exited BySignal \<and>
         \<not> running (step L m (t, Signal signum)) \<and>
         out (step L m (t, Signal signum))
           = out m @ (if mail m then [Logout] else []) @ [SysExit 0]"
  using assms by (simp add: step_def signal_handler_def emit_def Let_def)

theorem signal_while_idle_exits_witness:
  "pc (run lib0 initial to_idle) = IdleWaiting \<and> mail (run lib0 initial to_idle) \<and>
   pc (step lib0 (run lib0 initial to_idle) (5, Signal 15)) = Exited BySignal \<and>
   \<not> running (step lib0 (run lib0 initial to_idle) (5, Signal 15)) \<and>
   out (step lib0 (run lib0 initial to_idle) (5, Signal 15))
     = out (run lib0 initial to_idle) @ [Logout, SysExit 0]"
proof -
  have p: "pc (run lib0 initial to_idle) = IdleWaiting"
    and c: "mail (run lib0 initial to_idle)"
    by (simp_all add: to_idle_def run_def step_def returns_def initial_def emit_def
          loop_head_def inner_head_def lib0_def)
  show ?thesis
    using p c signal_while_idle_exits [OF p, of lib0 5 15] by simp
qed

text \<open>
  The property as the specification states it fails: a termination signal during the wait ends the process
  after the logout, and the idle-stop command is not among the commands sent.
\<close>

theorem signal_while_idle_counterexample:
  "pc (run lib0 initial to_idle) = IdleWaiting \<and>
   pc (run lib0 initial (to_idle @ [(5, Signal 15)])) = Exited BySignal \<and>
   out (run lib0 initial (to_idle @ [(5, Signal 15)]))
     = [ConnectGmail, ExistingUnseen, SelectInbox, Send (''BGNL0 IDLE'' @ crlf),
        Logout, SysExit 0] \<and>
   Send (''DONE'' @ crlf) \<notin> set (out (run lib0 initial (to_idle @ [(5, Signal 15)])))"
  by (simp add: to_idle_def run_def step_def returns_def signal_handler_def initial_def
        emit_def loop_head_def inner_head_def lib0_def crlf_def)

text \<open>
  A signal that arrives inside a bare \<open>except\<close> of the pipeline, during the first scan or
  during \<open>_process_new_messages\<close>: the exit is swallowed, the call goes on with \<open>running\<close>
  cleared, and when it returns the monitor ends at the test of the loop.
\<close>

lemma swallowed_signal_ends_at_loop_head:
  assumes "pc m = StartCatchup \<or> pc m = ProcessNew"
  shows "pc (step L m (t, SignalSwallowed signum)) = pc m \<and>
         \<not> running (step L m (t, SignalSwallowed signum)) \<and>
         pc (step L (step L m (t, SignalSwallowed signum)) (t', Returns r)) = Exited LoopEnded"
proof -
  let ?m1 = "step L m (t, SignalSwallowed signum)"
  have a: "pc ?m1 = pc m \<and> \<not> running ?m1"
    using assms by (auto simp: step_def signal_handler_def emit_def Let_def split: if_splits)
  have "pc (returns L ?m1 t' r) = Exited LoopEnded"
    using a assms by (auto simp: returns_def loop_head_def emit_def)
  then show ?thesis using a by (simp add: step_def)
qed

text \<open>
  The refresh of the wait.  The test of the elapsed time stands after the \<open>readline\<close> of
  the inner loop, and that \<open>readline\<close> has no timeout.  When a line without \<open>EXISTS\<close> (or
  an empty read) arrives more than 1740 seconds after the wait began, the monitor sends
  the idle-stop command, waits for a line with the tag and goes back to the select and
  the idle command, without a call of \<open>_process_new_messages\<close>.
\<close>

lemma late_line_refreshes:
  assumes "pc m = IdleWaiting" and "running m" and "mail m"
    and "line = [] \<or> \<not> contains ''EXISTS'' (decode L line)"
    and "t - idle_start_time m > 1740"
    and "contains (tag m) (decode L resp)"
  shows "run L m [(t, Returns (Ret line)), (t1, Returns (Ret x)), (t2, Returns (Ret resp))]
           = m\<lparr>pc := Select, out := out m @ [Send (''DONE'' @ crlf)]\<rparr>"
proof -
  let ?m1 = "m\<lparr>pc := SendDoneRefresh\<rparr>"
  let ?m2 = "m\<lparr>pc := AwaitTagRefresh, out := out m @ [Send (''DONE'' @ crlf)]\<rparr>"
  have s1: "step L m (t, Returns (Ret line)) = ?m1"
    using assms(1,4,5) by (simp add: step_def returns_def)
  have s2: "step L ?m1 (t1, Returns (Ret x)) = ?m2"
    by (simp add: step_def returns_def emit_def)
  have s3: "step L ?m2 (t2, Returns (Ret resp))
              = m\<lparr>pc := Select, out := out m @ [Send (''DONE'' @ crlf)]\<rparr>"
    using assms(2,3,6) by (simp add: step_def returns_def loop_head_def)
  show ?thesis by (simp only: run_def foldl_Cons foldl_Nil s1 s2 s3)
qed

text \<open>
  C3.  Whenever the monitor has waited more than 1740 seconds without a push, it should
  send the idle-stop command and start a new wait.  With a silent server it does not:
  the server acknowledges the idle command at time 4 and then sends nothing; at time
  2000, more than 1740 seconds later, the monitor is still in the wait and has sent no
  idle-stop command.
\<close>

theorem silent_server_no_refresh:
  "pc (state_at lib0 initial to_idle 2000) = IdleWaiting \<and>
   idle_start_time (state_at lib0 initial to_idle 2000) = 4 \<and>
   2000 - idle_start_time (state_at lib0 initial to_idle 2000) > 1740 \<and>
   out (state_at lib0 initial to_idle 2000)
     = [ConnectGmail, ExistingUnseen, SelectInbox, Send (''BGNL0 IDLE'' @ crlf)] \<and>
   Send (''DONE'' @ crlf) \<notin> set (out (state_at lib0 initial to_idle 2000))"
  by (simp add: state_at_def to_idle_def run_def step_def returns_def initial_def emit_def
        loop_head_def inner_head_def lib0_def crlf_def)

end
